theory Spec2Isabelle
  imports Complex_Main "HOL-Library.Word"
begin

unbundle bit_operations_syntax

section \<open>Data model of \<^verbatim>\<open>mlx/fast.cpp\<close>\<close>

text \<open>
  The operators of \<^verbatim>\<open>mlx::core::fast\<close> validate their arguments, build a
  fallback closure out of array-library operations and either run that closure at once
  or wrap it in a primitive node for the GPU. The model keeps these three layers apart:
  validation failures are values of \<open>error\<close>, the array library (\<^verbatim>\<open>mlx/ops.h\<close>,
  not part of the sources at hand) is a parameter, and the value returned by an operator
  says whether a primitive node was built.
\<close>

datatype Device = cpu | gpu

record Stream =
  index :: int
  device :: Device

datatype Dtype =
  bool' | uint8 | uint16 | uint32 | uint64 | int8 | int16 | int32 | int64
  | float16 | float32 | bfloat16 | complex64

text \<open>
  An array has a shape (C++ \<^verbatim>\<open>std::vector<int>\<close>), an element type and its elements in
  row-major order. Element values are idealised as real numbers.
\<close>

record array =
  shape :: "int list"
  dtype :: Dtype
  data :: "real list"

definition ndim :: "array \<Rightarrow> nat" where
  "ndim a = length (shape a)"

text \<open>
  C++ integer division truncates towards zero, and \<^verbatim>\<open>%\<close> is its remainder. Division by
  zero is undefined; the operators below test for it before they call \<open>cdiv\<close> or \<open>crem\<close>.
\<close>

definition cdiv :: "int \<Rightarrow> int \<Rightarrow> int" where
  "cdiv a b = sgn a * sgn b * (\<bar>a\<bar> div \<bar>b\<bar>)"

definition crem :: "int \<Rightarrow> int \<Rightarrow> int" where
  "crem a b = a - b * cdiv a b"

text \<open>The constructor \<^verbatim>\<open>array(value, dtype)\<close> of a 0-dimensional array.\<close>

definition array_scalar :: "real \<Rightarrow> Dtype \<Rightarrow> array" where
  "array_scalar v t = \<lparr>shape = [], dtype = t, data = [v]\<rparr>"

text \<open>
  \<^verbatim>\<open>std::invalid_argument\<close> is the only exception \<^verbatim>\<open>fast.cpp\<close> throws itself; the
  message keeps the fixed part of the text the source streams into it. Three further ways in
  which a C++ call can fail to return a value are kept as outcomes of their own: reading a
  dimension that a shape does not have, an integer division by zero, and control reaching
  the end of a value-returning function.
\<close>

datatype error = invalid_argument string | out_of_range | division_by_zero | falls_off_end

type_synonym fallback = "array list \<Rightarrow> array list"

subsection \<open>The array library\<close>

text \<open>
  The operations of \<^verbatim>\<open>mlx/ops.h\<close> that \<^verbatim>\<open>fast.cpp\<close> calls, with their non-array
  arguments. The stream argument every operation takes is left out.
\<close>

datatype Op =
    Astype Dtype
  | Multiply | Add | Subtract | Divide | Negative | Power | Maximum
  | Exp | Cos | Sin | Sqrt | Rsqrt | Square | Abs | Round
  | Greater | Equal | NotEqual | Where | Clip
  | LeftShift | RightShift
  | Mean int bool
  | Sum "int list" bool
  | MaxOp int bool
  | MinOp int bool
  | NumberOfElements "int list" bool Dtype
  | Reshape "int list"
  | ExpandDims int
  | Swapaxes int int
  | Matmul
  | Softmax "int list" bool
  | Arange int int int Dtype
  | Concatenate int

text \<open>
  The library itself is not among the sources, so it is a parameter of every operator:
  \<open>ops\<close> interprets an operation on its array arguments, \<open>result_type\<close> is the type
  promotion of \<^verbatim>\<open>mlx/dtype.h\<close> and \<open>issubdtype_floating t\<close> stands for
  \<^verbatim>\<open>issubdtype(t, floating)\<close>.
\<close>

record lib =
  ops :: "Op \<Rightarrow> array list \<Rightarrow> array"
  result_type :: "Dtype list \<Rightarrow> Dtype"
  issubdtype_floating :: "Dtype \<Rightarrow> bool"

text \<open>
  Modelled from the spec: \<^verbatim>\<open>zeros_like\<close> is defined in \<^verbatim>\<open>mlx/ops.cpp\<close>, which is not
  among the sources. It is the array of zeros with the shape and the element type of its
  argument (the spec's "zero if weight absent").
\<close>

definition zeros_like :: "array \<Rightarrow> array" where
  "zeros_like a = \<lparr>shape = shape a, dtype = dtype a, data = map (\<lambda>_. 0) (data a)\<rparr>"

subsection \<open>The library over exact arithmetic\<close>

text \<open>
  An interpretation of the elementwise part of the library over the real numbers, with
  NumPy-style broadcasting on row-major data. It instantiates the library parameter in
  the examples below. Shapes that do not broadcast make the library raise; the
  interpretation is only meant for shapes that do.
\<close>

definition block :: "nat \<Rightarrow> nat \<Rightarrow> nat \<Rightarrow> 'a list \<Rightarrow> 'a list" where
  "block m sz i xs = (if m = 1 then xs else take sz (drop (i * sz) xs))"

fun bzip :: "(real \<Rightarrow> real \<Rightarrow> real) \<Rightarrow> nat list \<Rightarrow> real list \<Rightarrow> nat list \<Rightarrow> real list \<Rightarrow> real list" where
  "bzip f (m # ms) xs (n # ns) ys =
     concat (map (\<lambda>i. bzip f ms (block m (prod_list ms) i xs) ns (block n (prod_list ns) i ys))
               [0..<max m n])"
| "bzip f ms xs ns ys = (case (xs, ys) of (x # _, y # _) \<Rightarrow> [f x y] | _ \<Rightarrow> [])"

definition pad_shape :: "nat \<Rightarrow> int list \<Rightarrow> nat list" where
  "pad_shape r sh = replicate (r - length sh) 1 @ map nat sh"

definition dtype_rank :: "Dtype \<Rightarrow> nat" where
  "dtype_rank t =
     (case t of bool' \<Rightarrow> 0 | uint8 \<Rightarrow> 1 | uint16 \<Rightarrow> 2 | uint32 \<Rightarrow> 3 | uint64 \<Rightarrow> 4
      | int8 \<Rightarrow> 5 | int16 \<Rightarrow> 6 | int32 \<Rightarrow> 7 | int64 \<Rightarrow> 8
      | float16 \<Rightarrow> 9 | bfloat16 \<Rightarrow> 10 | float32 \<Rightarrow> 11 | complex64 \<Rightarrow> 12)"

definition widest :: "Dtype list \<Rightarrow> Dtype" where
  "widest ts = fold (\<lambda>t acc. if dtype_rank acc < dtype_rank t then t else acc) ts bool'"

definition broadcast_op :: "(real \<Rightarrow> real \<Rightarrow> real) \<Rightarrow> array \<Rightarrow> array \<Rightarrow> array" where
  "broadcast_op f a b =
     (let r = max (ndim a) (ndim b);
          sa = pad_shape r (shape a);
          sb = pad_shape r (shape b)
      in \<lparr>shape = map (\<lambda>(m, n). int (max m n)) (zip sa sb),
          dtype = widest [dtype a, dtype b],
          data = bzip f sa (data a) sb (data b)\<rparr>)"

definition map_data :: "(real \<Rightarrow> real) \<Rightarrow> array \<Rightarrow> array" where
  "map_data g a = \<lparr>shape = shape a, dtype = dtype a, data = map g (data a)\<rparr>"

definition mean_last :: "array \<Rightarrow> array" where
  "mean_last a =
     (let d = nat (last (shape a));
          n = prod_list (map nat (butlast (shape a)))
      in \<lparr>shape = butlast (shape a) @ [1],
          dtype = dtype a,
          data = map (\<lambda>i. sum_list (take d (drop (i * d) (data a))) / real d) [0..<n]\<rparr>)"

definition empty_array :: array where
  "empty_array = \<lparr>shape = [0], dtype = float32, data = []\<rparr>"

definition exact_ops :: "Op \<Rightarrow> array list \<Rightarrow> array" where
  "exact_ops op args =
     (case (op, args) of
        (Astype t, [a]) \<Rightarrow> \<lparr>shape = shape a, dtype = t, data = data a\<rparr>
      | (Multiply, [a, b]) \<Rightarrow> broadcast_op (*) a b
      | (Divide, [a, b]) \<Rightarrow> broadcast_op (/) a b
      | (Add, [a, b]) \<Rightarrow> broadcast_op (+) a b
      | (Subtract, [a, b]) \<Rightarrow> broadcast_op (-) a b
      | (Sqrt, [a]) \<Rightarrow> map_data sqrt a
      | (Rsqrt, [a]) \<Rightarrow> map_data (\<lambda>v. 1 / sqrt v) a
      | (Square, [a]) \<Rightarrow> map_data (\<lambda>v. v * v) a
      | (Negative, [a]) \<Rightarrow> map_data uminus a
      | (Mean axis keepdims, [a]) \<Rightarrow>
          (if keepdims \<and> (axis = - 1 \<or> axis = int (ndim a) - 1) then mean_last a
           else empty_array)
      | _ \<Rightarrow> empty_array)"

definition exact_lib :: lib where
  "exact_lib = \<lparr>ops = exact_ops, result_type = widest,
                 issubdtype_floating = (\<lambda>t. t = float16 \<or> t = float32 \<or> t = bfloat16)\<rparr>"

subsection \<open>Primitive nodes\<close>

text \<open>
  The primitives of \<^verbatim>\<open>mlx/fast_primitives.h\<close> with their constructor arguments: the
  stream, the fallback closure and the operator's parameters.
\<close>

datatype Primitive =
    RMSNorm Stream fallback real
  | RMSNormVJP Stream fallback real
  | LayerNorm Stream fallback real
  | LayerNormVJP Stream fallback real
  | RoPE Stream fallback int bool real real int bool
  | ScaledDotProductAttention Stream fallback real bool
  | AffineQuantize Stream fallback int int bool
  | CustomKernel Stream string

text \<open>
  What an operator returns: either the array computed by running the fallback's library
  calls, or the deferred node \<^verbatim>\<open>array(shape, dtype, primitive, inputs)\<close>.
\<close>

datatype lazy =
    fallback_result array
  | primitive_node "int list" Dtype Primitive "array list"

text \<open>\<^verbatim>\<open>array::make_arrays\<close>: one node per declared output, all of the same primitive.\<close>

definition make_arrays ::
  "int list list \<Rightarrow> Dtype list \<Rightarrow> Primitive \<Rightarrow> array list \<Rightarrow> lazy list" where
  "make_arrays shapes dtypes primitive inputs =
     map (\<lambda>(sh, t). primitive_node sh t primitive inputs) (zip shapes dtypes)"

subsection \<open>\<^verbatim>\<open>Custom::vjp\<close>\<close>

text \<open>
  The selection loop of \<^verbatim>\<open>Custom::vjp\<close>:
  \<^verbatim>\<open>for (int i = 0, j = 0; i < vjps.size(); ++i)
     if (j < argnums.size() && i == argnums[j]) { vjp_outs.push_back(vjps[i]); j++; }\<close>
  with the loop state \<open>(i, j, vjp_outs)\<close> passed explicitly.
\<close>

function vjp_loop :: "'a list \<Rightarrow> int list \<Rightarrow> nat \<Rightarrow> nat \<Rightarrow> 'a list \<Rightarrow> 'a list" where
  "vjp_loop vjps argnums i j vjp_outs =
     (if i < length vjps then
        (if j < length argnums \<and> int i = argnums ! j
         then vjp_loop vjps argnums (i + 1) (j + 1) (vjp_outs @ [vjps ! i])
         else vjp_loop vjps argnums (i + 1) j vjp_outs)
      else vjp_outs)"
  by pat_completeness auto
termination
  by (relation "measure (\<lambda>(vjps, argnums, i, j, vjp_outs). length vjps - i)") auto

declare vjp_loop.simps [simp del]

text \<open>
  \<^verbatim>\<open>mlx::core::vjp\<close> (\<^verbatim>\<open>mlx/transforms.h\<close>) is the generic reverse-mode engine; it
  is a parameter \<open>core_vjp\<close> returning the outputs and one gradient per primal.
  The \<open>outputs\<close> argument is unused by the source.
\<close>

definition Custom_vjp ::
  "(fallback \<Rightarrow> array list \<Rightarrow> array list \<Rightarrow> array list \<times> array list)
    \<Rightarrow> fallback \<Rightarrow> array list \<Rightarrow> array list \<Rightarrow> int list \<Rightarrow> array list \<Rightarrow> array list" where
  "Custom_vjp core_vjp fallback' primals cotangents argnums outputs =
     (let vjps = snd (core_vjp fallback' primals cotangents)
      in vjp_loop vjps argnums 0 0 [])"

subsection \<open>\<^verbatim>\<open>rms_norm\<close>\<close>

text \<open>The fallback closure of \<^verbatim>\<open>rms_norm\<close>; it captures \<open>eps\<close> and \<open>out_type\<close>.\<close>

definition rms_norm_fallback :: "lib \<Rightarrow> real \<Rightarrow> Dtype \<Rightarrow> fallback" where
  "rms_norm_fallback L eps out_type inputs =
     (let x = ops L (Astype float32) [inputs ! 0];
          x = ops L Multiply
                [x,
                 ops L Rsqrt
                   [ops L Add
                      [ops L (Mean (- 1) True) [ops L Square [x]],
                       array_scalar eps float32]]];
          x = ops L (Astype out_type) [x]
      in [ops L Multiply [inputs ! 1, x]])"

definition rms_norm :: "lib \<Rightarrow> array \<Rightarrow> array \<Rightarrow> real \<Rightarrow> Stream \<Rightarrow> error + lazy" where
  "rms_norm L x weight eps s =
     (if ndim x = 0 then
        Inl (invalid_argument
          ''[rms_norm] Input must have at least 1 dimension but got input with 0 dimensions.'')
      else if ndim weight \<noteq> 1 then
        Inl (invalid_argument ''[rms_norm] weight must have 1 dimension but has'')
      else
        (let out_type = result_type L [dtype x, dtype weight] in
         if \<not> issubdtype_floating L out_type then
           Inl (invalid_argument ''[rms_norm] Received unsupported type'')
         else
           (let fallback = rms_norm_fallback L eps out_type in
            if device s = gpu then
              Inr (primitive_node (shape x) out_type (RMSNorm s fallback eps)
                     [ops L (Astype out_type) [x], ops L (Astype out_type) [weight]])
            else Inr (fallback_result (fallback [x, weight] ! 0)))))"

text \<open>
  The definition of RMS normalisation in the words of the specification:
  \<open>y = weight * cast (x32 / sqrt (mean (x32\<^sup>2, last axis) + eps), out_type)\<close>
  with \<open>x32\<close> the input upcast to \<open>float32\<close>.
\<close>

definition rms_norm_spec :: "lib \<Rightarrow> array \<Rightarrow> array \<Rightarrow> real \<Rightarrow> Dtype \<Rightarrow> array" where
  "rms_norm_spec L x weight eps out_type =
     (let x32 = ops L (Astype float32) [x];
          ms = ops L (Mean (- 1) True) [ops L Square [x32]];
          normed = ops L Divide [x32, ops L Sqrt [ops L Add [ms, array_scalar eps float32]]]
      in ops L Multiply [weight, ops L (Astype out_type) [normed]])"

subsection \<open>\<^verbatim>\<open>scaled_dot_product_attention\<close>\<close>

text \<open>
  \<^verbatim>\<open>a.shape(i)\<close> with a possibly negative axis, as in \<^verbatim>\<open>mlx/array.h\<close>: a negative
  axis counts from the end.
\<close>

definition shape_at :: "array \<Rightarrow> int \<Rightarrow> int" where
  "shape_at a i = (if i < 0 then shape a ! nat (int (ndim a) + i) else shape a ! nat i)"

text \<open>
  The fallback closure of the attention operator. It captures \<open>scale\<close>, \<open>needs_mask\<close>
  and the two head counts; the mask, when present, is the fourth input.
\<close>

definition sdpa_fallback :: "lib \<Rightarrow> real \<Rightarrow> bool \<Rightarrow> int \<Rightarrow> int \<Rightarrow> fallback" where
  "sdpa_fallback L scale needs_mask n_q_heads n_kv_heads inputs =
     (let q = ops L Multiply [array_scalar scale (dtype (inputs ! 0)), inputs ! 0];
          n_repeats = cdiv n_q_heads n_kv_heads;
          B = shape_at q 0;
          L' = shape_at q 2;
          k = inputs ! 1;
          v = inputs ! 2;
          q = (if n_repeats > 1 then ops L (Reshape [B, n_kv_heads, n_repeats, L', - 1]) [q] else q);
          k = (if n_repeats > 1 then ops L (ExpandDims 2) [k] else k);
          v = (if n_repeats > 1 then ops L (ExpandDims 2) [v] else v);
          scores = ops L Matmul [q, ops L (Swapaxes (- 1) (- 2)) [k]];
          scores = (if needs_mask then ops L Add [scores, inputs ! 3] else scores);
          scores = ops L (Softmax [- 1] True) [scores];
          out = ops L Matmul [scores, v];
          out = (if n_repeats > 1 then ops L (Reshape [B, n_q_heads, L', - 1]) [out] else out)
      in [out])"

text \<open>
  The operator. The three validation loops and tests come first, in the order of the
  source; \<open>n_q_heads % n_kv_heads\<close> divides by \<open>n_kv_heads\<close>, which nothing has
  checked to be non-zero. The eligibility flags are computed as in the source and then
  and-ed with \<open>false\<close>.
\<close>

definition scaled_dot_product_attention ::
  "lib \<Rightarrow> array \<Rightarrow> array \<Rightarrow> array \<Rightarrow> real \<Rightarrow> array option \<Rightarrow> Stream \<Rightarrow> error + lazy" where
  "scaled_dot_product_attention L queries keys values scale mask' s =
     (if ndim queries \<noteq> 4 \<or> ndim keys \<noteq> 4 \<or> ndim values \<noteq> 4 then
        Inl (invalid_argument ''[scaled_dot_product_attention] input expected to be rank 4'')
      else
     (let batch_dim = shape_at queries 0 in
      if shape_at keys 0 \<noteq> batch_dim \<or> shape_at values 0 \<noteq> batch_dim then
        Inl (invalid_argument
          ''[scaled_dot_product_attention] mismatching batch dimension for input'')
      else if shape_at queries (- 1) \<noteq> shape_at keys (- 1) then
        Inl (invalid_argument
          ''[scaled_dot_product_attention] query, keys expected to have matching last dimension'')
      else
     (let n_q_heads = shape_at queries (- 3);
          n_kv_heads = shape_at keys (- 3) in
      if shape_at keys (- 3) \<noteq> shape_at values (- 3) then
        Inl (invalid_argument
          ''[scaled_dot_product_attention] keys, values expected to have matching n_kv_heads'')
      else if n_kv_heads = 0 then Inl division_by_zero
      else if crem n_q_heads n_kv_heads \<noteq> 0 then
        Inl (invalid_argument
          ''[scaled_dot_product_attention] n_heads must be a multiple of n_kv_heads'')
      else
     (let final_type = result_type L [dtype queries, dtype keys, dtype values] in
      if \<not> issubdtype_floating L final_type then
        Inl (invalid_argument ''[scaled_dot_product_attention] Received unsupported type'')
      else
     (let q = ops L (Astype final_type) [queries];
          k = ops L (Astype final_type) [keys];
          v = ops L (Astype final_type) [values];
          needs_mask = (mask' \<noteq> None);
          fallback = sdpa_fallback L scale needs_mask n_q_heads n_kv_heads;
          query_head_dim = shape_at q (- 1);
          supported_head_dim =
            (query_head_dim = 64 \<or> query_head_dim = 80 \<or> query_head_dim = 128);
          supported_head_dim_self_attn = (query_head_dim = 64 \<or> query_head_dim = 128);
          query_sequence_length = shape_at q 2;
          supports_full_self_attention =
            (query_sequence_length \<ge> 16 \<and> mask' = None \<and> supported_head_dim_self_attn
             \<and> n_q_heads = n_kv_heads \<and> final_type \<noteq> bfloat16 \<and> device s = gpu);
          supports_sdpa =
            (batch_dim = 1 \<and> query_sequence_length = 1 \<and> mask' = None \<and> supported_head_dim
             \<and> final_type \<noteq> bfloat16 \<and> device s = gpu);
          implementation_supports_use_case = (supports_sdpa \<or> supports_full_self_attention);
          implementation_supports_use_case = (implementation_supports_use_case \<and> False)
      in
      if implementation_supports_use_case then
        Inr (primitive_node [shape_at q 0, shape_at q 1, shape_at q 2, shape_at v (- 1)]
               final_type (ScaledDotProductAttention s fallback scale False) [q, k, v])
      else
        (case mask' of
           Some m \<Rightarrow> Inr (fallback_result (fallback [q, k, v, m] ! 0))
         | None \<Rightarrow> Inr (fallback_result (fallback [q, k, v] ! 0))))))))"

text \<open>
  The decomposition in the words of the specification: scale the queries; when the query
  head count is a proper multiple of the key/value head count, repeat the key/value heads
  by reshaping the queries into groups and giving keys and values a broadcast axis; then
  \<open>softmax (q \<cdot> k\<^sup>T + mask) \<cdot> v\<close>, reshaped back.
\<close>

definition scale_queries :: "lib \<Rightarrow> real \<Rightarrow> array \<Rightarrow> array" where
  "scale_queries L scale q = ops L Multiply [array_scalar scale (dtype q), q]"

definition softmax_attention :: "lib \<Rightarrow> array \<Rightarrow> array \<Rightarrow> array \<Rightarrow> array option \<Rightarrow> array" where
  "softmax_attention L q k v mask' =
     (let qk = ops L Matmul [q, ops L (Swapaxes (- 1) (- 2)) [k]];
          scores = (case mask' of None \<Rightarrow> qk | Some m \<Rightarrow> ops L Add [qk, m])
      in ops L Matmul [ops L (Softmax [- 1] True) [scores], v])"

definition sdpa_spec ::
  "lib \<Rightarrow> real \<Rightarrow> int \<Rightarrow> int \<Rightarrow> array \<Rightarrow> array \<Rightarrow> array \<Rightarrow> array option \<Rightarrow> array" where
  "sdpa_spec L scale n_q_heads n_kv_heads q k v mask' =
     (let qs = scale_queries L scale q;
          n_repeats = cdiv n_q_heads n_kv_heads
      in if n_repeats > 1 then
           ops L (Reshape [shape_at qs 0, n_q_heads, shape_at qs 2, - 1])
             [softmax_attention L
                (ops L (Reshape [shape_at qs 0, n_kv_heads, n_repeats, shape_at qs 2, - 1]) [qs])
                (ops L (ExpandDims 2) [k]) (ops L (ExpandDims 2) [v]) mask']
         else softmax_attention L qs k v mask')"

text \<open>
  The inputs the specification calls valid: rank-4 queries, keys and values with equal
  batch sizes, equal head dimension of queries and keys, equal head counts of keys and
  values, a query head count that is a multiple of the (non-zero) key/value head count, and
  a floating common type.
\<close>

definition sdpa_valid :: "lib \<Rightarrow> array \<Rightarrow> array \<Rightarrow> array \<Rightarrow> bool" where
  "sdpa_valid L queries keys values =
     (ndim queries = 4 \<and> ndim keys = 4 \<and> ndim values = 4
      \<and> shape_at keys 0 = shape_at queries 0 \<and> shape_at values 0 = shape_at queries 0
      \<and> shape_at queries (- 1) = shape_at keys (- 1)
      \<and> shape_at keys (- 3) = shape_at values (- 3)
      \<and> shape_at keys (- 3) \<noteq> 0
      \<and> shape_at keys (- 3) dvd shape_at queries (- 3)
      \<and> issubdtype_floating L (result_type L [dtype queries, dtype keys, dtype values]))"

text \<open>
  \<open>matched n i as\<close> is the prefix of the remaining index list \<open>as\<close> that a scan from
  position \<open>i\<close> over \<open>n\<close> gradients can still reach: each index must lie at or after the
  scan position and below \<open>n\<close>.
\<close>

fun matched :: "nat \<Rightarrow> nat \<Rightarrow> int list \<Rightarrow> int list" where
  "matched n i [] = []"
| "matched n i (a # as) =
     (if int i \<le> a \<and> a < int n then a # matched n (nat a + 1) as else [])"

subsection \<open>Library calls that raise\<close>

text \<open>
  The array library builds values lazily but checks shapes and element types at once, when
  an operation is called, and raises \<^verbatim>\<open>std::invalid_argument\<close> when they do not fit.
  Whether \<^verbatim>\<open>rope\<close> and \<^verbatim>\<open>affine_dequantize\<close> return depends on these checks, so
  their fallback closures are functions into \<open>error + array list\<close>.

  The closure type of the primitive nodes has no error component. A closure that can raise
  is stored in a node through \<open>stored\<close>; the operators only store it there and do
  not run it.
\<close>

definition stored :: "(array list \<Rightarrow> error + array list) \<Rightarrow> fallback" where
  "stored f inputs = (case f inputs of Inl e \<Rightarrow> [] | Inr outs \<Rightarrow> outs)"

text \<open>
  C++ \<^verbatim>\<open>int\<close> arithmetic has 32 bits: \<open>wrap32 v\<close> is the two's-complement \<^verbatim>\<open>int\<close> a
  sum or product comes out as when its mathematical value is \<open>v\<close>.
\<close>

definition wrap32 :: "int \<Rightarrow> int" where
  "wrap32 v = (v + 2 ^ 31) mod 2 ^ 32 - 2 ^ 31"

text \<open>
  Modelled from the spec: \<^verbatim>\<open>a.size()\<close>, \<^verbatim>\<open>reshape\<close>, \<^verbatim>\<open>expand_dims\<close>, the broadcasting
  binary operations and \<^verbatim>\<open>concatenate\<close> live in \<^verbatim>\<open>mlx/array.h\<close> and \<^verbatim>\<open>mlx/ops.cpp\<close>,
  which are not among the sources. An array's size is the product of its shape.

  \<^verbatim>\<open>reshape(a, shape)\<close> returns \<open>a\<close> itself when the shape is already its own. Otherwise
  at most one entry of the shape may be \<open>-1\<close>; it is inferred as the size of \<open>a\<close>
  divided (rounding down) by the product of the other entries, unless that product is zero,
  and the sizes before and after must agree. The data keep their row-major order.
\<close>

definition array_size :: "array \<Rightarrow> nat" where
  "array_size a = nat (prod_list (shape a))"

definition reshape :: "array \<Rightarrow> int list \<Rightarrow> error + array" where
  "reshape a sh =
     (if shape a = sh then Inr a
      else if 1 < count_list sh (- 1) then
        Inl (invalid_argument ''[reshape] Reshape can only infer one dimension.'')
      else
        (let known = prod_list (removeAll (- 1) sh) in
         if 0 < known then
           (let sh' = map (\<lambda>d. if d = - 1 then int (array_size a) div known else d) sh in
            if int (array_size a) \<noteq> prod_list sh' then
              Inl (invalid_argument ''[reshape] Cannot reshape array of size'')
            else Inr (a\<lparr>shape := sh'\<rparr>))
         else if - 1 \<in> set sh then
           Inl (invalid_argument ''[reshape] Cannot infer the shape of an empty array'')
         else if int (array_size a) \<noteq> known then
           Inl (invalid_argument ''[reshape] Cannot reshape array of size'')
         else Inr (a\<lparr>shape := sh\<rparr>)))"

text \<open>\<^verbatim>\<open>expand_dims(a, -1)\<close> appends an axis of length one.\<close>

definition expand_dims_last :: "array \<Rightarrow> array" where
  "expand_dims_last a = a\<lparr>shape := shape a @ [1]\<rparr>"

text \<open>
  Broadcasting: the shorter shape is padded with ones on the left; two dimensions fit when
  they are equal or one of them is one, and then the result has their product.
\<close>

definition broadcast_shapes :: "int list \<Rightarrow> int list \<Rightarrow> error + int list" where
  "broadcast_shapes s1 s2 =
     (let r = max (length s1) (length s2);
          a = replicate (r - length s1) 1 @ s1;
          b = replicate (r - length s2) 1 @ s2
      in if list_all (\<lambda>(m, n). m = n \<or> m = 1 \<or> n = 1) (zip a b)
         then Inr (map (\<lambda>(m, n). if m = n then m else m * n) (zip a b))
         else Inl (invalid_argument ''Shapes cannot be broadcast.''))"

definition binary_op ::
  "(real \<Rightarrow> real \<Rightarrow> real) \<Rightarrow> Dtype \<Rightarrow> array \<Rightarrow> array \<Rightarrow> error + array" where
  "binary_op f t a b =
     (case broadcast_shapes (shape a) (shape b) of
        Inl e \<Rightarrow> Inl e
      | Inr sh \<Rightarrow>
          (let r = max (ndim a) (ndim b) in
           Inr \<lparr>shape = sh, dtype = t,
                data = bzip f (pad_shape r (shape a)) (data a) (pad_shape r (shape b)) (data b)\<rparr>))"

text \<open>
  \<^verbatim>\<open>multiply\<close> and \<^verbatim>\<open>add\<close>; the element type of the result is the library's type
  promotion, a parameter.
\<close>

definition multiply :: "lib \<Rightarrow> array \<Rightarrow> array \<Rightarrow> error + array" where
  "multiply L a b = binary_op (*) (result_type L [dtype a, dtype b]) a b"

definition add :: "lib \<Rightarrow> array \<Rightarrow> array \<Rightarrow> error + array" where
  "add L a b = binary_op (+) (result_type L [dtype a, dtype b]) a b"

text \<open>
  \<^verbatim>\<open>left_shift\<close> and \<^verbatim>\<open>right_shift\<close> on \<open>uint32\<close> operands, the only ones
  \<^verbatim>\<open>fast.cpp\<close> passes. A shift by 32 or more, which C++ leaves undefined, shifts every
  bit out.
\<close>

definition uint32_shift :: "(nat \<Rightarrow> 32 word \<Rightarrow> 32 word) \<Rightarrow> real \<Rightarrow> real \<Rightarrow> real" where
  "uint32_shift sh v k = real (unat (sh (nat \<lfloor>k\<rfloor>) (word_of_int \<lfloor>v\<rfloor>)))"

definition left_shift :: "array \<Rightarrow> array \<Rightarrow> error + array" where
  "left_shift a b = binary_op (uint32_shift push_bit) uint32 a b"

definition right_shift :: "array \<Rightarrow> array \<Rightarrow> error + array" where
  "right_shift a b = binary_op (uint32_shift drop_bit) uint32 a b"

text \<open>
  \<^verbatim>\<open>concatenate(arrays, -1)\<close>: there must be an array, all arrays must have the same rank
  (at least one) and the same shape up to the last axis; the rows of the arrays are joined
  in list order.
\<close>

definition concatenate_last :: "lib \<Rightarrow> array list \<Rightarrow> error + array" where
  "concatenate_last L arrays =
     (if arrays = [] then
        Inl (invalid_argument ''[concatenate] No arrays provided for concatenation'')
      else if ndim (hd arrays) = 0 then
        Inl (invalid_argument ''[concatenate] Invalid axis'')
      else if \<not> list_all (\<lambda>a. ndim a = ndim (hd arrays)) arrays then
        Inl (invalid_argument
          ''[concatenate] All the input arrays must have the same number of dimensions.'')
      else if \<not> list_all (\<lambda>a. butlast (shape a) = butlast (shape (hd arrays))) arrays then
        Inl (invalid_argument
          ''[concatenate] All the input array dimensions must match exactly except for the concatenation axis.'')
      else
        (let n = nat (prod_list (butlast (shape (hd arrays)))) in
         Inr \<lparr>shape = butlast (shape (hd arrays)) @ [sum_list (map (\<lambda>a. last (shape a)) arrays)],
              dtype = result_type L (map dtype arrays),
              data = concat (map (\<lambda>i. concat (map (\<lambda>a. take (nat (last (shape a)))
                                                    (drop (i * nat (last (shape a))) (data a)))
                                          arrays))
                              [0..<n])\<rparr>))"

subsection \<open>Affine quantization\<close>

text \<open>\<^verbatim>\<open>v.back() = x\<close> on a shape vector.\<close>

definition set_back :: "int list \<Rightarrow> int \<Rightarrow> int list" where
  "set_back sh v = sh[length sh - 1 := v]"

text \<open>
  \<^verbatim>\<open>pack_and_quantize\<close>. \<^verbatim>\<open>(1 << bits) - 1\<close> is \<open>2 ^ bits - 1\<close> for the bit widths a
  32-bit shift is defined for.
\<close>

definition pack_and_quantize :: "lib \<Rightarrow> array \<Rightarrow> array \<Rightarrow> array \<Rightarrow> int \<Rightarrow> int \<Rightarrow> array" where
  "pack_and_quantize L packed_w scales biases group_size bits =
     (let el_per_int = cdiv 32 bits;
          zero = array_scalar 0 (dtype packed_w);
          n_bins = array_scalar (real_of_int (2 ^ nat bits - 1)) (dtype packed_w);
          shifts = ops L Power [array_scalar 2 uint32, ops L (Arange 0 32 bits uint32) []];
          packed_w = ops L (Astype uint32)
                       [ops L Clip
                          [ops L Round [ops L Divide [ops L Subtract [packed_w, biases], scales]],
                           zero, n_bins]];
          packed_w = ops L (Reshape [shape_at packed_w 0, - 1, el_per_int]) [packed_w];
          packed_w = ops L (Sum [2] False) [ops L Multiply [packed_w, shifts]]
      in packed_w)"



text \<open>
  The overload with given scales and biases. The source starts with
  \<^verbatim>\<open>int el_per_int = 32 / bits\<close> and has no test of its arguments. The branches for a zero
  divisor and for a 0-dimensional \<open>w\<close> (whose \<^verbatim>\<open>shape(-1)\<close> does not exist) stand for the
  places where the source divides or reads the last dimension.
\<close>

definition affine_quantize_sb_fallback :: "lib \<Rightarrow> int \<Rightarrow> int \<Rightarrow> int \<Rightarrow> fallback" where
  "affine_quantize_sb_fallback L group_size bits el_per_int inputs =
     (let w = inputs ! 0;
          scales = ops L (ExpandDims (- 1)) [inputs ! 1];
          biases = ops L (ExpandDims (- 1)) [inputs ! 2];
          wshape = set_back (shape w) (- 1);
          packed_w = ops L (Reshape [- 1, cdiv (shape_at w (- 1)) group_size, group_size]) [w];
          packed_w = pack_and_quantize L packed_w scales biases group_size bits
      in [ops L (Reshape wshape) [packed_w]])"

definition affine_quantize_sb ::
  "lib \<Rightarrow> array \<Rightarrow> array \<Rightarrow> array \<Rightarrow> int \<Rightarrow> int \<Rightarrow> Stream \<Rightarrow> error + lazy" where
  "affine_quantize_sb L w scales biases group_size bits s =
     (if bits = 0 then Inl division_by_zero
      else
        (let el_per_int = cdiv 32 bits;
             fallback = affine_quantize_sb_fallback L group_size bits el_per_int
         in if ndim w = 0 then Inl out_of_range
            else if device s = gpu then
              (if el_per_int = 0 then Inl division_by_zero
               else Inr (primitive_node
                      (set_back (shape w) (cdiv (shape_at w (- 1)) el_per_int)) uint32
                      (AffineQuantize s fallback group_size bits False) [w, scales, biases]))
            else if group_size = 0 then Inl division_by_zero
            else Inr (fallback_result (fallback [w, scales, biases] ! 0))))"

text \<open>
  The unpacking loop of the dequantize fallback,
  \<^verbatim>\<open>for (int start = 0; start < 32; start += bits)\<close>. It is entered with \<open>bits > 0\<close> only;
  the test is repeated here so that the recursion is total. A shift amount is stored as a
  \<open>uint32\<close> scalar, hence taken modulo \<open>2 ^ 32\<close>. The loop runs once for every
  \<open>start = 0, bits, 2 * bits, ...\<close> below 32, whether or not \<open>bits\<close> divides 32.
\<close>

function dequantize_parts :: "array \<Rightarrow> int \<Rightarrow> int \<Rightarrow> error + array list" where
  "dequantize_parts w bits start =
     (if start < 32 \<and> 0 < bits then
        (case left_shift w (array_scalar (real_of_int ((32 - (start + bits)) mod 2 ^ 32)) uint32) of
           Inl e \<Rightarrow> Inl e
         | Inr shifted \<Rightarrow>
        (case right_shift shifted (array_scalar (real_of_int ((32 - bits) mod 2 ^ 32)) uint32) of
           Inl e \<Rightarrow> Inl e
         | Inr field \<Rightarrow>
        (case dequantize_parts w bits (start + bits) of
           Inl e \<Rightarrow> Inl e
         | Inr parts \<Rightarrow> Inr (expand_dims_last field # parts))))
      else Inr [])"
  by pat_completeness auto
termination
  by (relation "measure (\<lambda>(w, bits, start). nat (32 - start))") auto

declare dequantize_parts.simps [simp del]

text \<open>
  The fallback closure of \<^verbatim>\<open>affine_dequantize\<close>. It captures the two shapes whose last
  entry has been set to \<open>-1\<close>; \<^verbatim>\<open>wshape.push_back(group_size)\<close> extends the first.
\<close>

definition affine_dequantize_fallback ::
  "lib \<Rightarrow> int list \<Rightarrow> int list \<Rightarrow> int \<Rightarrow> int \<Rightarrow> int \<Rightarrow> array list \<Rightarrow> error + array list" where
  "affine_dequantize_fallback L wshape sshape group_size bits el_per_int inputs =
     (let w = inputs ! 0;
          scales = inputs ! 1;
          biases = inputs ! 2
      in case dequantize_parts w bits 0 of Inl e \<Rightarrow> Inl e | Inr parts \<Rightarrow>
        (case concatenate_last L parts of Inl e \<Rightarrow> Inl e | Inr w_full \<Rightarrow>
        (case reshape w_full (wshape @ [group_size]) of Inl e \<Rightarrow> Inl e | Inr w_full \<Rightarrow>
        (case multiply L w_full (expand_dims_last scales) of Inl e \<Rightarrow> Inl e | Inr w_full \<Rightarrow>
        (case add L w_full (expand_dims_last biases) of Inl e \<Rightarrow> Inl e | Inr w_full \<Rightarrow>
        (case reshape w_full sshape of Inl e \<Rightarrow> Inl e | Inr w_full \<Rightarrow> Inr [w_full]))))))"

text \<open>
  The operator. The width test and the output width multiply C++ \<^verbatim>\<open>int\<close>s. Off the GPU
  the fallback runs at once, and what it raises the operator raises.
\<close>

definition affine_dequantize ::
  "lib \<Rightarrow> array \<Rightarrow> array \<Rightarrow> array \<Rightarrow> int \<Rightarrow> int \<Rightarrow> Stream \<Rightarrow> error + lazy" where
  "affine_dequantize L w scales biases group_size bits s =
     (if bits \<le> 0 then Inl (invalid_argument ''[dequantize] Invalid value for bits'')
      else if group_size \<le> 0 then
        Inl (invalid_argument ''[dequantize] Invalid value for group_size'')
      else if ndim w < 2 \<or> ndim scales < 2 \<or> ndim biases < 2 then
        Inl (invalid_argument
          ''[quantize] The matrix to be quantized must have at least 2 dimension'')
      else
        (let wshape = set_back (shape w) (- 1);
             sshape = set_back (shape scales) (- 1);
             bshape = set_back (shape biases) (- 1)
         in if wshape \<noteq> sshape \<or> wshape \<noteq> bshape then
              Inl (invalid_argument
                ''[dequantize] Shape of scales and biases does not match the matrix'')
            else if dtype w \<noteq> uint32 then
              Inl (invalid_argument ''[dequantize] The matrix should be given as a uint32'')
            else
              (let el_per_int = cdiv 32 bits in
               if wrap32 (shape_at w (- 1) * el_per_int)
                    \<noteq> wrap32 (shape_at scales (- 1) * group_size) then
                 Inl (invalid_argument
                   ''[dequantize] Shape of scales and biases does not match the matrix given the quantization parameters.'')
               else
                 (let fallback =
                        affine_dequantize_fallback L wshape sshape group_size bits el_per_int
                  in if device s = gpu then
                       Inr (primitive_node
                              (set_back (shape w) (wrap32 (shape_at w (- 1) * el_per_int)))
                              (dtype scales)
                              (AffineQuantize s (stored fallback) group_size bits True)
                              [w, scales, biases])
                     else
                       (case fallback [w, scales, biases] of
                          Inl e \<Rightarrow> Inl e
                        | Inr outs \<Rightarrow> Inr (fallback_result (outs ! 0)))))))"

subsection \<open>The packed layout on one 32-bit word\<close>

text \<open>
  \<^verbatim>\<open>arange(start, stop, step)\<close> on integers, as the counting loop it stands for.
\<close>

function arange_int :: "int \<Rightarrow> int \<Rightarrow> int \<Rightarrow> int list" where
  "arange_int start stop step =
     (if start < stop \<and> 0 < step then start # arange_int (start + step) stop step else [])"
  by pat_completeness auto
termination
  by (relation "measure (\<lambda>(start, stop, step). nat (stop - start))") auto

declare arange_int.simps [simp del]

text \<open>
  The packing lines of \<^verbatim>\<open>pack_and_quantize\<close> act on each run of \<open>32 / bits\<close> quantized
  values of the last axis separately: the values, already cast to \<open>uint32\<close>, are multiplied
  elementwise by \<^verbatim>\<open>shifts = power(2, arange(0, 32, bits))\<close> and summed over that axis.
  \<open>pack_word\<close> is this computation on one run, in \<open>uint32\<close> arithmetic.
\<close>

definition shifts :: "int \<Rightarrow> 32 word list" where
  "shifts bits = map (\<lambda>e. 2 ^ nat e) (arange_int 0 32 bits)"

definition pack_word :: "int \<Rightarrow> 32 word list \<Rightarrow> 32 word" where
  "pack_word bits qs = sum_list (map (\<lambda>(q, sh). q * sh) (zip qs (shifts bits)))"

text \<open>
  The unpacking loop of the dequantize fallback on one packed word: for
  \<open>start = 0, bits, 2 * bits, ...\<close> below 32 it yields
  \<^verbatim>\<open>right_shift(left_shift(w, 32 - (start + bits)), 32 - bits)\<close>, and the parts are
  concatenated in loop order. Both shifts are \<open>uint32\<close> operations.
\<close>

function unpack_word :: "int \<Rightarrow> int \<Rightarrow> 32 word \<Rightarrow> 32 word list" where
  "unpack_word bits start w =
     (if start < 32 \<and> 0 < bits then
        drop_bit (nat ((32 - bits) mod 2 ^ 32))
          (push_bit (nat ((32 - (start + bits)) mod 2 ^ 32)) w)
        # unpack_word bits (start + bits) w
      else [])"
  by pat_completeness auto
termination
  by (relation "measure (\<lambda>(bits, start, w). nat (32 - start))") auto

declare unpack_word.simps [simp del]

text \<open>The number with the given base-\<open>B\<close> digits, least significant first.\<close>

fun val :: "nat \<Rightarrow> nat list \<Rightarrow> nat" where
  "val B [] = 0"
| "val B (x # xs) = x + B * val B xs"

subsection \<open>\<^verbatim>\<open>rope\<close>\<close>

text \<open>
  The fallback of \<^verbatim>\<open>rope\<close> first reshapes its input to three dimensions
  (batch, position, feature). From there on the arrays are nested lists of real numbers.
  The element type of the input decides how the angles are computed and which type the
  result has; arithmetic in a floating type is exact arithmetic here, and the values of a
  \<open>complex64\<close> array are outside this data model.
\<close>

type_synonym tensor3 = "real list list list"
type_synonym tensor4 = "real list list list list"

text \<open>
  Modelled from the spec: the element types are declared in \<^verbatim>\<open>mlx/dtype.h\<close>, which is
  not among the sources. \<open>floating\<close> is \<^verbatim>\<open>issubdtype(t, floating)\<close>; the inexact types
  are the floating ones and \<open>complex64\<close>. \<open>static_cast t v\<close> is the value of the scalar
  \<^verbatim>\<open>array(v, t)\<close> and of an arithmetic result stored in type \<open>t\<close>: unchanged for an inexact
  type, truncated towards zero and reduced to the width of an integer type, and \<open>v \<noteq> 0\<close>
  for \<open>bool\<close>. The unary \<^verbatim>\<open>exp\<close>, \<^verbatim>\<open>cos\<close> and \<^verbatim>\<open>sin\<close> and every binary operation with
  a \<open>float32\<close> operand turn an integer array into a \<open>float32\<close> one
  (\<open>at_least_float\<close>). \<^verbatim>\<open>arange\<close> raises for \<open>bool\<close>.
\<close>

definition floating :: "Dtype \<Rightarrow> bool" where
  "floating t = (t = float16 \<or> t = float32 \<or> t = bfloat16)"

definition inexact :: "Dtype \<Rightarrow> bool" where
  "inexact t = (floating t \<or> t = complex64)"

definition at_least_float :: "Dtype \<Rightarrow> Dtype" where
  "at_least_float t = (if inexact t then t else float32)"

definition int_width :: "Dtype \<Rightarrow> nat" where
  "int_width t =
     (if t = uint8 \<or> t = int8 then 8 else if t = uint16 \<or> t = int16 then 16
      else if t = uint32 \<or> t = int32 then 32 else 64)"

definition int_signed :: "Dtype \<Rightarrow> bool" where
  "int_signed t = (t = int8 \<or> t = int16 \<or> t = int32 \<or> t = int64)"

definition trunc :: "real \<Rightarrow> int" where
  "trunc v = (if 0 \<le> v then \<lfloor>v\<rfloor> else \<lceil>v\<rceil>)"

definition static_cast :: "Dtype \<Rightarrow> real \<Rightarrow> real" where
  "static_cast t v =
     (if inexact t then v
      else if t = bool' then (if v = 0 then 0 else 1)
      else if int_signed t then
        real_of_int ((trunc v + 2 ^ (int_width t - 1)) mod 2 ^ int_width t
                       - 2 ^ (int_width t - 1))
      else real_of_int (trunc v mod 2 ^ int_width t))"

definition arange :: "int \<Rightarrow> int \<Rightarrow> Dtype \<Rightarrow> error + real list" where
  "arange start stop t =
     (if t = bool' then Inl (invalid_argument ''bool not supported for arange.'')
      else Inr (map (\<lambda>i. static_cast t (real_of_int i)) (arange_int start stop 1)))"

text \<open>
  Modelled from the spec: the nested-list view of \<^verbatim>\<open>reshape\<close> (\<^verbatim>\<open>mlx/ops.cpp\<close>, not
  among the sources). \<open>rows n d xs\<close> cuts \<open>xs\<close> into \<open>n\<close> consecutive pieces of length
  \<open>d\<close>; \<open>reshape3 a n1 n2\<close> is the result of \<^verbatim>\<open>reshape(a, {-1, n1, n2})\<close>, where the
  inferred leading dimension is \<open>a.size() / (n1 * n2)\<close>, and \<open>reshape_infer3\<close> is that
  call with the checks of \<open>reshape\<close>; \<open>reshape_from3\<close> and \<open>reshape_from4\<close> reshape
  a 3-D or 4-D array to a given shape, and \<open>reshape43\<close> merges the last two axes of a 4-D
  array.
\<close>

definition rows :: "nat \<Rightarrow> nat \<Rightarrow> 'a list \<Rightarrow> 'a list list" where
  "rows n d xs = map (\<lambda>i. take d (drop (i * d) xs)) [0..<n]"

definition reshape3 :: "array \<Rightarrow> nat \<Rightarrow> nat \<Rightarrow> tensor3" where
  "reshape3 a n1 n2 =
     map (rows n1 n2) (rows (array_size a div (n1 * n2)) (n1 * n2) (data a))"

definition reshape_infer3 :: "array \<Rightarrow> nat \<Rightarrow> nat \<Rightarrow> error + tensor3" where
  "reshape_infer3 a n1 n2 =
     (case reshape a [- 1, int n1, int n2] of
        Inl e \<Rightarrow> Inl e
      | Inr a' \<Rightarrow> Inr (reshape3 a n1 n2))"

definition reshape_from3 :: "tensor3 \<Rightarrow> int list \<Rightarrow> Dtype \<Rightarrow> array" where
  "reshape_from3 a sh t = \<lparr>shape = sh, dtype = t, data = concat (concat a)\<rparr>"

definition reshape_from4 :: "tensor4 \<Rightarrow> int list \<Rightarrow> Dtype \<Rightarrow> array" where
  "reshape_from4 a sh t = \<lparr>shape = sh, dtype = t, data = concat (concat (concat a))\<rparr>"

definition reshape43 :: "tensor4 \<Rightarrow> tensor3" where
  "reshape43 a = map (map concat) a"

text \<open>
  Modelled from the spec: \<^verbatim>\<open>slice(a, start, stop, strides)\<close> of \<^verbatim>\<open>mlx/ops.cpp\<close> on a 3-D
  array. Along one axis it keeps the entries \<open>start, start + step, ...\<close> below \<open>stop\<close>
  (the spec's pairs \<open>(x[2i], x[2i+1])\<close> are the slices with step 2 from 0 and from 1).
\<close>

function stride :: "nat \<Rightarrow> 'a list \<Rightarrow> 'a list" where
  "stride k [] = []"
| "stride k (x # xs) = x # stride k (drop (k - 1) xs)"
  by pat_completeness auto
termination
  by (relation "measure (\<lambda>(k, xs). length xs)") auto

definition slice_axis :: "nat \<Rightarrow> nat \<Rightarrow> nat \<Rightarrow> 'a list \<Rightarrow> 'a list" where
  "slice_axis start stop step xs = stride step (drop start (take stop xs))"

definition slice3 ::
  "tensor3 \<Rightarrow> nat \<times> nat \<times> nat \<Rightarrow> nat \<times> nat \<times> nat \<Rightarrow> nat \<times> nat \<times> nat \<Rightarrow> tensor3" where
  "slice3 x start stop strides =
     (case (start, stop, strides) of
        ((s0, s1, s2), (e0, e1, e2), (k0, k1, k2)) \<Rightarrow>
          map (\<lambda>m. map (slice_axis s2 e2 k2) (slice_axis s1 e1 k1 m)) (slice_axis s0 e0 k0 x))"

text \<open>
  Modelled from the spec: the elementwise operations \<^verbatim>\<open>multiply\<close>, \<^verbatim>\<open>add\<close> and
  \<^verbatim>\<open>subtract\<close> of \<^verbatim>\<open>mlx/ops.cpp\<close> on two 3-D arrays of one shape, and \<^verbatim>\<open>multiply\<close> of a
  3-D array with a 2-D table, which is broadcast along the first axis.
\<close>

definition elementwise3 :: "(real \<Rightarrow> real \<Rightarrow> real) \<Rightarrow> tensor3 \<Rightarrow> tensor3 \<Rightarrow> tensor3" where
  "elementwise3 f a b = map2 (map2 (map2 f)) a b"

definition multiply32 :: "tensor3 \<Rightarrow> real list list \<Rightarrow> tensor3" where
  "multiply32 a c = elementwise3 (*) a (map (\<lambda>_. c) a)"

text \<open>
  Modelled from the spec: \<^verbatim>\<open>expand_dims(a, 3)\<close> on a 3-D array and
  \<^verbatim>\<open>concatenate(arrays, axis)\<close> of \<^verbatim>\<open>mlx/ops.cpp\<close> for axis 2 of 3-D arrays and axis 3 of
  4-D arrays: the arrays are joined entry by entry along that axis, in list order.
\<close>

definition expand_dims3 :: "tensor3 \<Rightarrow> tensor4" where
  "expand_dims3 a = map (map (map (\<lambda>v. [v]))) a"

fun concatenate_with :: "('a \<Rightarrow> 'a \<Rightarrow> 'a) \<Rightarrow> 'a \<Rightarrow> 'a list \<Rightarrow> 'a" where
  "concatenate_with f e [] = e"
| "concatenate_with f e [a] = a"
| "concatenate_with f e (a # b # as) = f a (concatenate_with f e (b # as))"

definition concatenate_axis2 :: "tensor3 list \<Rightarrow> tensor3" where
  "concatenate_axis2 arrays = concatenate_with (map2 (map2 (@))) [] arrays"

definition concatenate_axis3 :: "tensor4 list \<Rightarrow> tensor4" where
  "concatenate_axis3 arrays = concatenate_with (map2 (map2 (map2 (@)))) [] arrays"

text \<open>
  The lambda \<^verbatim>\<open>apply_rope\<close> inside the fallback.
\<close>

definition apply_rope ::
  "bool \<Rightarrow> tensor3 \<Rightarrow> tensor3 \<Rightarrow> real list list \<Rightarrow> real list list \<Rightarrow> tensor3 list" where
  "apply_rope forward x1 x2 coss sins =
     (if forward then
        [elementwise3 (-) (multiply32 x1 coss) (multiply32 x2 sins),
         elementwise3 (+) (multiply32 x1 sins) (multiply32 x2 coss)]
      else
        [elementwise3 (+) (multiply32 x2 sins) (multiply32 x1 coss),
         elementwise3 (-) (multiply32 x2 coss) (multiply32 x1 sins)])"

text \<open>
  The fallback closure of \<^verbatim>\<open>rope\<close>. \<open>n0\<close>, \<open>n1\<close> and \<open>n2\<close> are
  \<^verbatim>\<open>x.shape(0)\<close>, \<^verbatim>\<open>x.shape(1)\<close> and \<^verbatim>\<open>x.shape(-1)\<close> of the reshaped input, and
  \<open>t\<close> is its element type: the positions, the scalar \<^verbatim>\<open>array(scale, t)\<close>, the
  frequency indices and the scalar \<^verbatim>\<open>array(std::log(base) / half_dims, t)\<close> all have type
  \<open>t\<close>. \<^verbatim>\<open>x.shape(1) + offset\<close> is a sum of C++ \<^verbatim>\<open>int\<close>s. The nested-list operations
  are the library's on operands of fitting shapes, as they are for an even \<open>dims\<close>
  between 0 and the size of the last axis.
\<close>

definition rope_fallback ::
  "int \<Rightarrow> bool \<Rightarrow> real \<Rightarrow> real \<Rightarrow> int \<Rightarrow> bool \<Rightarrow> array list \<Rightarrow> error + array list" where
  "rope_fallback dims traditional base scale offset forward inputs =
     (let shape' = shape (inputs ! 0);
          ndim' = length shape';
          n1 = nat (shape' ! (ndim' - 2));
          n2 = nat (shape' ! (ndim' - 1))
      in case reshape_infer3 (inputs ! 0) n1 n2 of Inl e \<Rightarrow> Inl e | Inr x \<Rightarrow>
        (let n0 = array_size (inputs ! 0) div (n1 * n2);
             t = dtype (inputs ! 0);
             N = wrap32 (int n1 + offset);
             half_dims = cdiv dims 2
         in case arange offset N t of Inl e \<Rightarrow> Inl e | Inr positions \<Rightarrow>
           (case arange 0 half_dims t of Inl e \<Rightarrow> Inl e | Inr freqs \<Rightarrow>
           (let positions = map (\<lambda>p. static_cast t (p * static_cast t scale)) positions;
                freqs = map (\<lambda>i. static_cast t (- i)) freqs;
                freqs = map (\<lambda>f. exp (static_cast t
                                 (f * static_cast t (ln base / real_of_int half_dims)))) freqs;
                theta = map (\<lambda>p. map (\<lambda>f. p * f) freqs) positions;
                coss = map (map cos) theta;
                sins = map (map sin) theta;
                out_type = at_least_float t
            in if traditional then
                 (let x1 = slice3 x (0, 0, 0) (n0, n1, nat dims) (1, 1, 2);
                      x2 = slice3 x (0, 0, 1) (n0, n1, nat dims) (1, 1, 2);
                      outs = apply_rope forward x1 x2 coss sins;
                      outs = map expand_dims3 outs;
                      out = concatenate_axis3 outs
                  in if dims < int n2 then
                       (let out = reshape43 out;
                            out = concatenate_axis2
                                    [out, slice3 x (0, 0, nat dims) (n0, n1, n2) (1, 1, 1)]
                        in Inr [reshape_from3 out shape' out_type])
                     else Inr [reshape_from4 out shape' out_type])
               else
                 (let x1 = slice3 x (0, 0, 0) (n0, n1, nat half_dims) (1, 1, 1);
                      x2 = slice3 x (0, 0, nat half_dims) (n0, n1, nat dims) (1, 1, 1);
                      outs = apply_rope forward x1 x2 coss sins;
                      outs = (if dims < int n2
                              then outs @ [slice3 x (0, 0, nat dims) (n0, n1, n2) (1, 1, 1)]
                              else outs)
                  in Inr [reshape_from3 (concatenate_axis2 outs) shape' out_type])))))"

text \<open>
  The operator tests the rank only. The node has the element type of \<open>x\<close>; off the GPU
  the fallback runs at once, and what it raises the operator raises.
\<close>

definition rope ::
  "array \<Rightarrow> int \<Rightarrow> bool \<Rightarrow> real \<Rightarrow> real \<Rightarrow> int \<Rightarrow> bool \<Rightarrow> Stream \<Rightarrow> error + lazy" where
  "rope x dims traditional base scale offset forward s =
     (if ndim x < 3 then
        Inl (invalid_argument
          ''[rope] Input must have at least 3 dimensions but got input with'')
      else
        (let fallback = rope_fallback dims traditional base scale offset forward in
         if device s = gpu then
           Inr (primitive_node (shape x) (dtype x)
                  (RoPE s (stored fallback) dims traditional base scale offset forward) [x])
         else
           (case fallback [x] of
              Inl e \<Rightarrow> Inl e
            | Inr outs \<Rightarrow> Inr (fallback_result (outs ! 0)))))"

text \<open>
  Auxiliary notions for the analysis of the fallback. \<open>theta_table\<close> is the table of
  angles computed by its first lines. \<open>lift F C S x\<close> applies \<open>F\<close> to every row of the 3-D
  array \<open>x\<close> together with the rows of the tables \<open>C\<close> and \<open>S\<close> for the row's position.
  \<open>rot_fst\<close> and \<open>rot_snd\<close> are the two outputs of \<^verbatim>\<open>apply_rope\<close> on one row, and
  \<open>rope_row\<close> is what the fallback does to one row.
\<close>

definition theta_table :: "int \<Rightarrow> real \<Rightarrow> real \<Rightarrow> int \<Rightarrow> nat \<Rightarrow> real list list" where
  "theta_table dims base scale offset n1 =
     map (\<lambda>p. map (\<lambda>f. p * f)
                (map (\<lambda>i. exp (- real_of_int i * (ln base / real_of_int (cdiv dims 2))))
                   (arange_int 0 (cdiv dims 2) 1)))
       (map (\<lambda>p. real_of_int p * scale) (arange_int offset (int n1 + offset) 1))"

definition lift ::
  "(real list \<Rightarrow> real list \<Rightarrow> real list \<Rightarrow> 'a) \<Rightarrow> real list list \<Rightarrow> real list list \<Rightarrow> tensor3
     \<Rightarrow> 'a list list" where
  "lift F C S x = map (\<lambda>m. map (\<lambda>(r, c, s). F r c s) (zip m (zip C S))) x"

definition interleave :: "'a list \<Rightarrow> 'a list \<Rightarrow> 'a list" where
  "interleave a b = concat (map2 (@) (map (\<lambda>v. [v]) a) (map (\<lambda>v. [v]) b))"

definition rot_fst :: "bool \<Rightarrow> real list \<Rightarrow> real list \<Rightarrow> real list \<Rightarrow> real list \<Rightarrow> real list" where
  "rot_fst forward a b c s =
     (if forward then map2 (-) (map2 (*) a c) (map2 (*) b s)
      else map2 (+) (map2 (*) b s) (map2 (*) a c))"

definition rot_snd :: "bool \<Rightarrow> real list \<Rightarrow> real list \<Rightarrow> real list \<Rightarrow> real list \<Rightarrow> real list" where
  "rot_snd forward a b c s =
     (if forward then map2 (+) (map2 (*) a s) (map2 (*) b c)
      else map2 (-) (map2 (*) b c) (map2 (*) a s))"

definition rope_row ::
  "int \<Rightarrow> nat \<Rightarrow> bool \<Rightarrow> bool \<Rightarrow> real list \<Rightarrow> real list \<Rightarrow> real list \<Rightarrow> real list" where
  "rope_row dims n2 traditional forward r c s =
     (let rest = (if dims < int n2 then slice_axis (nat dims) n2 1 r else []) in
      if traditional then
        (let a = slice_axis 0 (nat dims) 2 r;
             b = slice_axis 1 (nat dims) 2 r
         in interleave (rot_fst forward a b c s) (rot_snd forward a b c s) @ rest)
      else
        (let a = slice_axis 0 (nat (cdiv dims 2)) 1 r;
             b = slice_axis (nat (cdiv dims 2)) (nat dims) 1 r
         in rot_fst forward a b c s @ rot_snd forward a b c s @ rest))"

subsection \<open>\<^verbatim>\<open>custom_kernel\<close>\<close>

text \<open>
  The two \<^verbatim>\<open>std::map\<close> arguments that are iterated over are association lists in key
  order; \<open>output_dtypes\<close> is only read through \<^verbatim>\<open>operator[]\<close>, a total lookup. The body
  is a single \<^verbatim>\<open>if\<close> without an \<^verbatim>\<open>else\<close> and there is no statement after it.
\<close>

definition custom_kernel ::
  "(string \<times> array) list \<Rightarrow> string \<Rightarrow> (string \<times> int list) list \<Rightarrow> (string \<Rightarrow> Dtype)
     \<Rightarrow> int \<times> int \<times> int \<Rightarrow> int \<times> int \<times> int \<Rightarrow> bool \<Rightarrow> Stream \<Rightarrow> error + lazy list" where
  "custom_kernel inputs source output_shapes output_dtypes grid threadgroup
       ensure_row_contiguous s =
     (if device s = gpu then
        (let in_arrs = map (\<lambda>(name, arr). arr) inputs;
             out_shapes = map (\<lambda>(name, sh). sh) output_shapes;
             out_dtypes = map (\<lambda>(name, sh). output_dtypes name) output_shapes
         in Inr (make_arrays out_shapes out_dtypes (CustomKernel s source) in_arrs))
      else Inl falls_off_end)"

subsection \<open>\<^verbatim>\<open>layer_norm\<close> and its gradient\<close>

definition layer_norm_fallback :: "lib \<Rightarrow> bool \<Rightarrow> bool \<Rightarrow> real \<Rightarrow> Dtype \<Rightarrow> fallback" where
  "layer_norm_fallback L has_weight has_bias eps out_type inputs =
     (let x = ops L (Astype float32) [inputs ! 0];
          mu = ops L (Mean (- 1) True) [x];
          mu2 = ops L Square [mu];
          x2 = ops L (Mean (- 1) True) [ops L Square [x]];
          v = ops L Subtract [x2, mu2];
          x = ops L Multiply
                [ops L Subtract [x, mu], ops L Rsqrt [ops L Add [v, array_scalar eps float32]]];
          x = ops L (Astype out_type) [x];
          x = (if has_weight then ops L Multiply [x, inputs ! 1] else x);
          x = (if has_bias then ops L Add [x, inputs ! 2] else x)
      in [x])"

text \<open>
  An absent weight is passed on as the 0-dimensional scalar \<open>1\<close>, an absent bias as the
  0-dimensional scalar \<open>0\<close>.
\<close>

definition layer_norm ::
  "lib \<Rightarrow> array \<Rightarrow> array option \<Rightarrow> array option \<Rightarrow> real \<Rightarrow> Stream \<Rightarrow> error + lazy" where
  "layer_norm L x weight bias eps s =
     (if ndim x = 0 then
        Inl (invalid_argument
          ''[layer_norm] Input must have at least 1 dimension but got input with 0 dimensions.'')
      else if weight \<noteq> None \<and> ndim (the weight) \<noteq> 1 then
        Inl (invalid_argument ''[layer_norm] weight must have 1 dimension but has'')
      else if bias \<noteq> None \<and> ndim (the bias) \<noteq> 1 then
        Inl (invalid_argument ''[layer_norm] bias must have 1 dimension but has'')
      else
        (let out_type =
               (case weight of
                  Some w \<Rightarrow>
                    (case bias of
                       Some b \<Rightarrow> result_type L [dtype x, dtype w, dtype b]
                     | None \<Rightarrow> result_type L [dtype x, dtype w])
                | None \<Rightarrow> dtype x)
         in if \<not> issubdtype_floating L out_type then
              Inl (invalid_argument ''[layer_norm] Received unsupported type'')
            else
              (let has_weight = (weight \<noteq> None);
                   has_bias = (bias \<noteq> None);
                   fallback = layer_norm_fallback L has_weight has_bias eps out_type;
                   passed_weight =
                     ops L (Astype out_type)
                       [case weight of Some w \<Rightarrow> w | None \<Rightarrow> array_scalar 1 out_type];
                   passed_bias =
                     ops L (Astype out_type)
                       [case bias of Some b \<Rightarrow> b | None \<Rightarrow> array_scalar 0 out_type]
               in if device s = gpu then
                    Inr (primitive_node (shape x) out_type (LayerNorm s fallback eps)
                           [ops L (Astype out_type) [x], passed_weight, passed_bias])
                  else Inr (fallback_result (fallback [x, passed_weight, passed_bias] ! 0)))))"

text \<open>
  The fallback closure of \<^verbatim>\<open>LayerNorm::vjp\<close>. Its inputs are \<open>x\<close>, \<open>w\<close>, \<open>b\<close> and the
  cotangent \<open>g\<close>; it returns the gradients with respect to \<open>x\<close>, \<open>w\<close> and \<open>b\<close>. The
  reduction axes are \<^verbatim>\<open>0, ..., g.ndim() - 2\<close>.
\<close>

definition LayerNorm_vjp_fallback :: "lib \<Rightarrow> real \<Rightarrow> fallback" where
  "LayerNorm_vjp_fallback L eps inputs =
     (let x = inputs ! 0;
          w = inputs ! 1;
          b = inputs ! 2;
          g = inputs ! 3;
          norm = ops L (NumberOfElements [- 1] True (dtype x)) [x];
          sumx = ops L (Sum [- 1] True) [x];
          sumx2 = ops L (Sum [- 1] True) [ops L Square [x]];
          mu = ops L Multiply [sumx, norm];
          mu2 = ops L Multiply [sumx2, norm];
          var = ops L Subtract [mu2, ops L Square [mu]];
          n = ops L Rsqrt [ops L Add [var, array_scalar eps (dtype x)]];
          n3 = ops L Power [n, array_scalar 3 (dtype x)];
          x_c = ops L Subtract [x, mu];
          wg = ops L Multiply [w, g];
          sumwg = ops L Multiply [ops L (Sum [- 1] True) [wg], norm];
          sumwgxc = ops L Multiply [ops L (Sum [- 1] True) [ops L Multiply [wg, x_c]], norm];
          t1 = ops L Multiply [ops L Multiply [x_c, sumwgxc], n3];
          t2 = ops L Multiply [ops L Subtract [wg, sumwg], n];
          dx = ops L Subtract [t2, t1];
          axes = map int [0..<ndim g - 1];
          dw = (if ndim w = 0 then zeros_like w
                else ops L (Sum axes False) [ops L Multiply [g, ops L Multiply [x_c, n]]]);
          db = (if ndim b = 0 then zeros_like w
                else ops L (Sum axes False) [g])
      in [dx, dw, db])"

subsection \<open>Example inputs\<close>

text \<open>Grouped-query attention inputs: batch 1, sequence length 4, head dimension 8, two query
  heads sharing one key/value head.\<close>

definition q_ex :: array where
  "q_ex = \<lparr>shape = [1, 2, 4, 8], dtype = float32, data = replicate 64 1\<rparr>"

definition kv_ex :: array where
  "kv_ex = \<lparr>shape = [1, 1, 4, 8], dtype = float16, data = replicate 32 1\<rparr>"

text \<open>A single row \<open>(3, 4)\<close> in half precision and a weight vector in single precision.\<close>

definition x_ex :: array where
  "x_ex = \<lparr>shape = [1, 2], dtype = float16, data = [3, 4]\<rparr>"

definition w_ex :: array where
  "w_ex = \<lparr>shape = [2], dtype = float32, data = [1, 2]\<rparr>"


text \<open>A packed matrix with 32 words per row and three scale/bias groups per row: with
  \<open>bits = 5\<close> and \<open>group_size = 64\<close>, \<open>32 * (32 div 5) = 3 * 64\<close>.\<close>

definition wq_ex :: array where
  "wq_ex = \<lparr>shape = [2, 32], dtype = uint32, data = replicate 64 0\<rparr>"

definition sb_ex :: array where
  "sb_ex = \<lparr>shape = [2, 3], dtype = float32, data = replicate 6 1\<rparr>"

text \<open>A matrix with one row of 128 features, that is two groups of 64, and scales and biases
  for a single group, of an integer type.\<close>

definition w_rq :: array where
  "w_rq = \<lparr>shape = [1, 128], dtype = float32, data = replicate 128 1\<rparr>"

definition s_rq :: array where
  "s_rq = \<lparr>shape = [1, 1], dtype = int32, data = [1]\<rparr>"

text \<open>Layer-norm inputs: two rows of three features and a weight vector; the bias is absent.\<close>

definition x_ln :: array where
  "x_ln = \<lparr>shape = [2, 3], dtype = float32, data = [1, 2, 3, 4, 5, 6]\<rparr>"

definition w_ln :: array where
  "w_ln = \<lparr>shape = [3], dtype = float32, data = [1, 1, 1]\<rparr>"

text \<open>One batch of two positions with four features each.\<close>

definition x_rope :: array where
  "x_rope = \<lparr>shape = [1, 2, 4], dtype = float32, data = [1, 2, 3, 4, 5, 6, 7, 8]\<rparr>"

text \<open>One position with the feature pair \<open>(0, 1)\<close>, as 32-bit integers and as the same
  values in single precision; that pair turned by half a radian; and an array without
  positions.\<close>

definition x_int :: array where
  "x_int = \<lparr>shape = [1, 1, 2], dtype = int32, data = [0, 1]\<rparr>"

definition y_int :: array where
  "y_int = \<lparr>shape = [1, 1, 2], dtype = float32, data = [0, 1]\<rparr>"

definition z_int :: array where
  "z_int = \<lparr>shape = [1, 1, 2], dtype = float32, data = [sin (1 / 2), cos (1 / 2)]\<rparr>"

definition x_empty :: array where
  "x_empty = \<lparr>shape = [1, 0, 2], dtype = float32, data = []\<rparr>"

text \<open>A packed matrix for 16-bit fields: 32 words per row unpack to 64 values, four groups
  of 16.\<close>

definition w16 :: array where
  "w16 = \<lparr>shape = [2, 32], dtype = uint32, data = replicate 64 0\<rparr>"

definition sb16 :: array where
  "sb16 = \<lparr>shape = [2, 4], dtype = float32, data = replicate 8 1\<rparr>"

section \<open>Proofs\<close>

subsection \<open>The selection loop of \<^verbatim>\<open>Custom::vjp\<close>\<close>

lemma matched_step:
  assumes "j < length argnums \<longrightarrow> int i \<noteq> argnums ! j"
  shows "matched n (i + 1) (drop j argnums) = matched n i (drop j argnums)"
proof (cases "j < length argnums")
  case True
  then have d: "drop j argnums = argnums ! j # drop (Suc j) argnums"
    by (simp add: Cons_nth_drop_Suc)
  from True assms have "int i \<noteq> argnums ! j" by simp
  then show ?thesis unfolding d by auto
next
  case False
  then show ?thesis by simp
qed

lemma matched_past_end: "n \<le> i \<Longrightarrow> matched n i as = []"
  by (cases as) auto

lemma vjp_loop_matched:
  "vjp_loop vjps argnums i j outs =
     outs @ map (\<lambda>a. vjps ! nat a) (matched (length vjps) i (drop j argnums))"
proof (induction vjps argnums i j outs rule: vjp_loop.induct)
  case (1 vjps argnums i j outs)
  show ?case
  proof (cases "i < length vjps")
    case False
    then show ?thesis by (simp add: vjp_loop.simps [of vjps argnums i] matched_past_end)
  next
    case inb: True
    show ?thesis
    proof (cases "j < length argnums \<and> int i = argnums ! j")
      case True
      then have d: "drop j argnums = int i # drop (Suc j) argnums"
        by (simp add: Cons_nth_drop_Suc)
      have "vjp_loop vjps argnums i j outs =
              vjp_loop vjps argnums (i + 1) (j + 1) (outs @ [vjps ! i])"
        using inb True by (simp add: vjp_loop.simps [of vjps argnums i])
      also have "\<dots> = (outs @ [vjps ! i]) @
              map (\<lambda>a. vjps ! nat a) (matched (length vjps) (i + 1) (drop (j + 1) argnums))"
        using "1.IH"(1) [OF inb True] .
      finally show ?thesis
        unfolding d using inb by simp
    next
      case False
      have "vjp_loop vjps argnums i j outs = vjp_loop vjps argnums (i + 1) j outs"
        using inb False by (subst vjp_loop.simps) auto
      also have "\<dots> = outs @
              map (\<lambda>a. vjps ! nat a) (matched (length vjps) (i + 1) (drop j argnums))"
        using "1.IH"(2) [OF inb False] .
      also have "matched (length vjps) (i + 1) (drop j argnums) =
              matched (length vjps) i (drop j argnums)"
        using False by (intro matched_step) auto
      finally show ?thesis .
    qed
  qed
qed

lemma matched_prefix: "matched n i as = take (length (matched n i as)) as"
  by (induction as arbitrary: i) auto

lemma matched_all:
  "sorted_wrt (<) as \<Longrightarrow> \<forall>a\<in>set as. int i \<le> a \<and> a < int n \<Longrightarrow> matched n i as = as"
proof (induction as arbitrary: i)
  case Nil
  then show ?case by simp
next
  case (Cons a as)
  have "\<forall>b\<in>set as. int (nat a + 1) \<le> b \<and> b < int n"
    using Cons.prems by auto
  moreover have "sorted_wrt (<) as" using Cons.prems by simp
  ultimately have "matched n (nat a + 1) as = as" using Cons.IH by blast
  then show ?case using Cons.prems by simp
qed

lemma matched_stops:
  "Suc p < length as \<Longrightarrow> as ! Suc p \<le> as ! p \<Longrightarrow> length (matched n i as) \<le> Suc p"
proof (induction as arbitrary: i p)
  case Nil
  then show ?case by simp
next
  case (Cons a as)
  show ?case
  proof (cases p)
    case 0
    then obtain b bs where as: "as = b # bs" using Cons.prems by (cases as) auto
    with 0 Cons.prems have "b \<le> a" by simp
    then show ?thesis using 0 as by auto
  next
    case (Suc q)
    then have "Suc q < length as" "as ! Suc q \<le> as ! q" using Cons.prems by auto
    then have "length (matched n (nat a + 1) as) \<le> Suc q" by (rule Cons.IH)
    then show ?thesis using Suc by auto
  qed
qed

lemma matched_full_sorted:
  "length (matched n i as) = length as \<Longrightarrow> sorted_wrt (<) as"
proof (induction as arbitrary: i)
  case Nil
  then show ?case by simp
next
  case (Cons a as)
  from Cons.prems have ok: "int i \<le> a \<and> a < int n"
    by (auto split: if_splits)
  with Cons.prems have full: "length (matched n (nat a + 1) as) = length as" by simp
  then have "sorted_wrt (<) as" by (rule Cons.IH)
  moreover have "\<forall>b\<in>set as. a < b"
  proof
    fix b assume "b \<in> set as"
    have m: "matched n (nat a + 1) as = as"
      using matched_prefix [of n "nat a + 1" as] full by simp
    have "\<And>k cs. matched n k cs = cs \<Longrightarrow> \<forall>c\<in>set cs. int k \<le> c"
    proof -
      fix k cs show "matched n k cs = cs \<Longrightarrow> \<forall>c\<in>set cs. int k \<le> c"
      proof (induction cs arbitrary: k)
        case Nil
        then show ?case by simp
      next
        case (Cons c cs)
        from Cons.prems have c: "int k \<le> c \<and> c < int n" and r: "matched n (nat c + 1) cs = cs"
          by (auto split: if_splits)
        from Cons.IH [OF r] have "\<forall>d\<in>set cs. int (nat c + 1) \<le> d" .
        with c show ?case by auto
      qed
    qed
    from this [OF m] \<open>b \<in> set as\<close> have "int (nat a + 1) \<le> b" by blast
    with ok show "a < b" by linarith
  qed
  ultimately show ?case by simp
qed

text \<open>
  Claim C8. For an index list that is strictly increasing and names inputs of the
  fallback, \<^verbatim>\<open>Custom::vjp\<close> returns the fallback's gradients at exactly those indices, in
  that order. For an index list that is not strictly increasing it returns fewer gradients
  than indices: the result is the gradients of a prefix of the list that ends no later than
  any out-of-order entry, so that entry and everything after it is dropped without an
  error.
\<close>

theorem Custom_vjp_argnums:
  fixes core_vjp fallback' primals cotangents
  defines "vjps \<equiv> snd (core_vjp fallback' primals cotangents)"
  shows "(sorted_wrt (<) argnums \<and> (\<forall>a\<in>set argnums. 0 \<le> a \<and> a < int (length vjps))
            \<longrightarrow> Custom_vjp core_vjp fallback' primals cotangents argnums outputs
                  = map (\<lambda>a. vjps ! nat a) argnums)
       \<and> (\<not> sorted_wrt (<) argnums
            \<longrightarrow> length (Custom_vjp core_vjp fallback' primals cotangents argnums outputs)
                  < length argnums)
       \<and> (\<forall>p. Suc p < length argnums \<and> argnums ! Suc p \<le> argnums ! p
            \<longrightarrow> (\<exists>k\<le>Suc p. Custom_vjp core_vjp fallback' primals cotangents argnums outputs
                  = map (\<lambda>a. vjps ! nat a) (take k argnums)))"
proof -
  let ?m = "matched (length vjps) 0 argnums"
  have run: "Custom_vjp core_vjp fallback' primals cotangents argnums outputs
               = map (\<lambda>a. vjps ! nat a) ?m"
    by (simp add: Custom_vjp_def vjps_def vjp_loop_matched Let_def)
  have pre: "?m = take (length ?m) argnums"
    by (rule matched_prefix)
  have le: "length ?m \<le> length argnums"
    by (subst pre) simp
  have a: "Custom_vjp core_vjp fallback' primals cotangents argnums outputs
             = map (\<lambda>a. vjps ! nat a) argnums"
    if "sorted_wrt (<) argnums \<and> (\<forall>a\<in>set argnums. 0 \<le> a \<and> a < int (length vjps))"
  proof -
    from that have "?m = argnums"
      by (intro matched_all) simp_all
    then show ?thesis by (simp only: run)
  qed
  have b: "length (Custom_vjp core_vjp fallback' primals cotangents argnums outputs)
             < length argnums"
    if "\<not> sorted_wrt (<) argnums"
  proof -
    have "length ?m \<noteq> length argnums"
      using that matched_full_sorted [of "length vjps" 0 argnums] by (rule contrapos_nn)
    with le show ?thesis by (simp add: run)
  qed
  have c: "\<exists>k\<le>Suc p. Custom_vjp core_vjp fallback' primals cotangents argnums outputs
             = map (\<lambda>a. vjps ! nat a) (take k argnums)"
    if "Suc p < length argnums \<and> argnums ! Suc p \<le> argnums ! p" for p
  proof (intro exI conjI)
    from that show "length ?m \<le> Suc p"
      by (intro matched_stops) simp_all
    show "Custom_vjp core_vjp fallback' primals cotangents argnums outputs
            = map (\<lambda>a. vjps ! nat a) (take (length ?m) argnums)"
      using pre by (simp only: run)
  qed
  from a b c show ?thesis by blast
qed

theorem Custom_vjp_argnums_witness:
  "Custom_vjp (\<lambda>f p c. (f p, p)) (\<lambda>xs. xs)
      [array_scalar 1 float32, array_scalar 2 float32, array_scalar 3 float32]
      [array_scalar 1 float32] [0, 2] []
     = [array_scalar 1 float32, array_scalar 3 float32]
   \<and> length (Custom_vjp (\<lambda>f p c. (f p, p)) (\<lambda>xs. xs)
      [array_scalar 1 float32, array_scalar 2 float32, array_scalar 3 float32]
      [array_scalar 1 float32] [2, 0] []) < 2"
  using Custom_vjp_argnums [where argnums = "[0, 2]" and core_vjp = "\<lambda>f p c. (f p, p)"
      and fallback' = "\<lambda>xs. xs" and cotangents = "[array_scalar 1 float32]" and outputs = "[]"
      and primals = "[array_scalar 1 float32, array_scalar 2 float32, array_scalar 3 float32]"]
    Custom_vjp_argnums [where argnums = "[2, 0]" and core_vjp = "\<lambda>f p c. (f p, p)"
      and fallback' = "\<lambda>xs. xs" and cotangents = "[array_scalar 1 float32]" and outputs = "[]"
      and primals = "[array_scalar 1 float32, array_scalar 2 float32, array_scalar 3 float32]"]
  by simp

subsection \<open>Attention always runs its fallback\<close>

lemma crem_zero_iff: "b \<noteq> 0 \<Longrightarrow> crem a b = 0 \<longleftrightarrow> b dvd a"
proof -
  assume b: "b \<noteq> 0"
  have q: "\<bar>a\<bar> = \<bar>b\<bar> * (\<bar>a\<bar> div \<bar>b\<bar>) + \<bar>a\<bar> mod \<bar>b\<bar>" by simp
  have sg: "b * (sgn a * sgn b * (\<bar>a\<bar> div \<bar>b\<bar>)) = sgn a * (\<bar>b\<bar> * (\<bar>a\<bar> div \<bar>b\<bar>))"
    by (simp add: mult.assoc mult.left_commute [of b] abs_sgn mult.commute)
  have "crem a b = sgn a * (\<bar>a\<bar> mod \<bar>b\<bar>)"
    unfolding crem_def cdiv_def sg
    by (metis (no_types, opaque_lifting) add_diff_cancel_left' mult.commute mult_sgn_abs q right_diff_distrib' sgn_mult_abs)
  then have "crem a b = 0 \<longleftrightarrow> a = 0 \<or> \<bar>a\<bar> mod \<bar>b\<bar> = 0"
    by (simp add: sgn_eq_0_iff)
  also have "\<dots> \<longleftrightarrow> \<bar>b\<bar> dvd \<bar>a\<bar>" by (auto simp: dvd_eq_mod_eq_0)
  finally show ?thesis by simp
qed

text \<open>
  Claim C1. On every valid input, with or without a mask and on every device,
  \<^verbatim>\<open>scaled_dot_product_attention\<close> returns the result of the fallback decomposition applied
  to the queries, keys and values cast to their common type. Invalid inputs end in an error,
  and no input at all makes the operator return a \<^verbatim>\<open>ScaledDotProductAttention\<close> node: the
  eligibility predicate is and-ed with \<open>false\<close> before it is tested.
\<close>

theorem sdpa_always_fallback:
  fixes L :: lib and queries keys vals :: array
  defines "final_type \<equiv> result_type L [dtype queries, dtype keys, dtype vals]"
  shows
  "(sdpa_valid L queries keys vals \<longrightarrow>
      scaled_dot_product_attention L queries keys vals scale mask' s =
        Inr (fallback_result
          (sdpa_spec L scale (shape_at queries (- 3)) (shape_at keys (- 3))
             (ops L (Astype final_type) [queries])
             (ops L (Astype final_type) [keys])
             (ops L (Astype final_type) [vals])
             mask')))
   \<and> (\<not> sdpa_valid L queries keys vals \<longrightarrow>
      (\<exists>e. scaled_dot_product_attention L queries keys vals scale mask' s = Inl e))
   \<and> (\<forall>sh t p ins.
      scaled_dot_product_attention L queries keys vals scale mask' s
        \<noteq> Inr (primitive_node sh t p ins))"
proof (intro conjI impI allI)
  assume "sdpa_valid L queries keys vals"
  then show "scaled_dot_product_attention L queries keys vals scale mask' s =
        Inr (fallback_result
          (sdpa_spec L scale (shape_at queries (- 3)) (shape_at keys (- 3))
             (ops L (Astype final_type) [queries])
             (ops L (Astype final_type) [keys])
             (ops L (Astype final_type) [vals])
             mask'))"
    unfolding sdpa_valid_def scaled_dot_product_attention_def final_type_def
    by (auto simp: Let_def crem_zero_iff sdpa_fallback_def sdpa_spec_def softmax_attention_def
          scale_queries_def split: option.split)
next
  assume "\<not> sdpa_valid L queries keys vals"
  then show "\<exists>e. scaled_dot_product_attention L queries keys vals scale mask' s = Inl e"
    unfolding sdpa_valid_def scaled_dot_product_attention_def
    by (auto simp: Let_def crem_zero_iff)
next
  fix sh t p ins
  show "scaled_dot_product_attention L queries keys vals scale mask' s
          \<noteq> Inr (primitive_node sh t p ins)"
    unfolding scaled_dot_product_attention_def
    by (simp add: Let_def split: option.split)
qed

theorem sdpa_always_fallback_witness:
  "scaled_dot_product_attention exact_lib q_ex kv_ex kv_ex (1 / 2) None \<lparr>index = 0, device = gpu\<rparr>
     = Inr (fallback_result
         (sdpa_spec exact_lib (1 / 2) 2 1
            (ops exact_lib (Astype float32) [q_ex])
            (ops exact_lib (Astype float32) [kv_ex])
            (ops exact_lib (Astype float32) [kv_ex]) None))"
proof -
  have v: "sdpa_valid exact_lib q_ex kv_ex kv_ex"
    by (simp add: sdpa_valid_def q_ex_def kv_ex_def shape_at_def ndim_def exact_lib_def
          widest_def dtype_rank_def)
  have t: "result_type exact_lib [dtype q_ex, dtype kv_ex, dtype kv_ex] = float32"
    by (simp add: q_ex_def kv_ex_def exact_lib_def widest_def dtype_rank_def)
  have h: "shape_at q_ex (- 3) = 2" "shape_at kv_ex (- 3) = 1"
    by (simp_all add: q_ex_def kv_ex_def shape_at_def ndim_def)
  from v sdpa_always_fallback [of exact_lib q_ex kv_ex kv_ex "1 / 2" None "\<lparr>index = 0, device = gpu\<rparr>"]
  show ?thesis by (simp add: t h)
qed

subsection \<open>RMS normalisation\<close>

text \<open>
  In the exact interpretation a function applied to the right operand can be moved into the
  combining function of a broadcast operation, so multiplying by a reciprocal square root
  is dividing by the square root.
\<close>

lemma block_map: "block m sz i (map g xs) = map g (block m sz i xs)"
  by (simp add: block_def take_map drop_map)

lemma bzip_map_right:
  "bzip f ms xs ns (map g ys) = bzip (\<lambda>u v. f u (g v)) ms xs ns ys"
proof (induction f ms xs ns ys rule: bzip.induct)
  case (1 f m ms xs n ns ys)
  have eq: "map (\<lambda>i. bzip f ms (block m (prod_list ms) i xs) ns
                 (map g (block n (prod_list ns) i ys))) [0..<max m n]
        = map (\<lambda>i. bzip (\<lambda>u v. f u (g v)) ms (block m (prod_list ms) i xs) ns
                 (block n (prod_list ns) i ys)) [0..<max m n]"
    by (rule map_cong [OF refl]) (simp add: "1.IH")
  show ?case by (simp only: bzip.simps(1) block_map eq)
qed (simp_all split: list.splits)

lemma exact_rsqrt_law:
  "ops exact_lib Multiply [a, ops exact_lib Rsqrt [b]]
     = ops exact_lib Divide [a, ops exact_lib Sqrt [b]]"
proof -
  have "(\<lambda>u v. u * (1 / sqrt v)) = (\<lambda>u v. u / sqrt v)"
    by (intro ext) simp
  then show ?thesis
    by (simp add: exact_lib_def exact_ops_def broadcast_op_def map_data_def ndim_def
          bzip_map_right Let_def)
qed

text \<open>
  Claim C3. Take any array library in which multiplying by \<open>rsqrt b\<close> is dividing by
  \<open>sqrt b\<close> (true of exact arithmetic). If \<open>x\<close> has at least one dimension, \<open>weight\<close>
  is 1-D and their common type is floating, then off the GPU \<^verbatim>\<open>rms_norm\<close> returns
  \<open>weight * cast (x32 / sqrt (mean (x32\<^sup>2, last axis) + eps), out_type)\<close> with \<open>x32\<close> the
  input upcast to \<open>float32\<close> and the cast applied before the multiplication by the weight;
  on the GPU it returns an \<^verbatim>\<open>RMSNorm\<close> node whose fallback closure computes the same
  formula. Every input that violates the rank or type preconditions raises
  \<^verbatim>\<open>std::invalid_argument\<close>.
\<close>

theorem rms_norm_refines_spec:
  fixes L :: lib and x weight :: array
  defines "out_type \<equiv> result_type L [dtype x, dtype weight]"
  assumes law: "\<forall>a b. ops L Multiply [a, ops L Rsqrt [b]] = ops L Divide [a, ops L Sqrt [b]]"
  shows
  "(ndim x \<ge> 1 \<and> ndim weight = 1 \<and> issubdtype_floating L out_type \<and> device s \<noteq> gpu \<longrightarrow>
      rms_norm L x weight eps s = Inr (fallback_result (rms_norm_spec L x weight eps out_type)))
   \<and> (ndim x \<ge> 1 \<and> ndim weight = 1 \<and> issubdtype_floating L out_type \<and> device s = gpu \<longrightarrow>
      (\<exists>fb. rms_norm L x weight eps s =
              Inr (primitive_node (shape x) out_type (RMSNorm s fb eps)
                     [ops L (Astype out_type) [x], ops L (Astype out_type) [weight]])
          \<and> (\<forall>x' w'. fb [x', w'] = [rms_norm_spec L x' w' eps out_type])))
   \<and> (ndim x = 0 \<or> ndim weight \<noteq> 1 \<or> \<not> issubdtype_floating L out_type \<longrightarrow>
      (\<exists>msg. rms_norm L x weight eps s = Inl (invalid_argument msg)))"
proof -
  have fb: "rms_norm_fallback L eps t [x', w'] = [rms_norm_spec L x' w' eps t]" for t x' w'
    by (simp add: rms_norm_fallback_def rms_norm_spec_def Let_def law)
  show ?thesis
    unfolding rms_norm_def out_type_def
    by (auto simp: Let_def fb)
qed

theorem rms_norm_refines_spec_witness:
  "rms_norm exact_lib x_ex w_ex (1 / 100000) \<lparr>index = 0, device = cpu\<rparr>
     = Inr (fallback_result (rms_norm_spec exact_lib x_ex w_ex (1 / 100000) float32))
   \<and> (\<exists>msg. rms_norm exact_lib (array_scalar 1 float32) w_ex (1 / 100000)
                 \<lparr>index = 0, device = cpu\<rparr> = Inl (invalid_argument msg))"
proof -
  have law: "\<forall>a b. ops exact_lib Multiply [a, ops exact_lib Rsqrt [b]]
               = ops exact_lib Divide [a, ops exact_lib Sqrt [b]]"
    using exact_rsqrt_law by blast
  have t: "result_type exact_lib [dtype x_ex, dtype w_ex] = float32"
    by (simp add: x_ex_def w_ex_def exact_lib_def widest_def dtype_rank_def)
  have v: "ndim x_ex \<ge> 1 \<and> ndim w_ex = 1 \<and> issubdtype_floating exact_lib float32"
    by (simp add: x_ex_def w_ex_def ndim_def exact_lib_def)
  have z: "ndim (array_scalar 1 float32) = 0"
    by (simp add: array_scalar_def ndim_def)
  show ?thesis
    using rms_norm_refines_spec [OF law, of x_ex w_ex "\<lparr>index = 0, device = cpu\<rparr>" "1 / 100000"]
      rms_norm_refines_spec [OF law, of "array_scalar 1 float32" w_ex
        "\<lparr>index = 0, device = cpu\<rparr>" "1 / 100000"] t v z
    by simp
qed

subsection \<open>Validation in the quantization operators\<close>

lemma cdiv_nonneg: "0 \<le> a \<Longrightarrow> 0 < b \<Longrightarrow> cdiv a b = a div b"
  by (cases "a = 0") (simp_all add: cdiv_def)



text \<open>
  Claim C4 says that the overload of \<^verbatim>\<open>affine_quantize\<close> with given scales and biases
  raises \<^verbatim>\<open>std::invalid_argument\<close> on inconsistent shapes or types. The source has no
  such test: the operator never raises \<^verbatim>\<open>std::invalid_argument\<close>. On a matrix with two
  groups per row and scales and biases of integer type for one group only, it runs the
  packing fallback off the GPU and builds the \<^verbatim>\<open>AffineQuantize\<close> node on the GPU.
\<close>

theorem affine_quantize_sb_unchecked:
  "(\<forall>L w scales biases group_size bits s msg.
      affine_quantize_sb L w scales biases group_size bits s \<noteq> Inl (invalid_argument msg))
   \<and> cdiv (shape_at w_rq (- 1)) 64 = 2
   \<and> shape_at s_rq (- 1) = 1
   \<and> affine_quantize_sb exact_lib w_rq s_rq s_rq 64 4 \<lparr>index = 0, device = cpu\<rparr> =
       Inr (fallback_result (affine_quantize_sb_fallback exact_lib 64 4 8 [w_rq, s_rq, s_rq] ! 0))
   \<and> affine_quantize_sb exact_lib w_rq s_rq s_rq 64 4 \<lparr>index = 0, device = gpu\<rparr> =
       Inr (primitive_node [1, 16] uint32
              (AffineQuantize \<lparr>index = 0, device = gpu\<rparr>
                 (affine_quantize_sb_fallback exact_lib 64 4 8) 64 4 False)
              [w_rq, s_rq, s_rq])"
proof (intro conjI allI)
  fix L w scales biases group_size bits s msg
  show "affine_quantize_sb L w scales biases group_size bits s \<noteq> Inl (invalid_argument msg)"
    by (simp add: affine_quantize_sb_def Let_def)
next
  show "cdiv (shape_at w_rq (- 1)) 64 = 2"
    by (simp add: w_rq_def shape_at_def ndim_def cdiv_def)
  show "shape_at s_rq (- 1) = 1"
    by (simp add: s_rq_def shape_at_def ndim_def)
  have el: "cdiv 32 4 = 8" by (simp add: cdiv_def)
  have sh: "cdiv (shape_at w_rq (- 1)) 8 = 16"
    by (simp add: w_rq_def shape_at_def ndim_def cdiv_def)
  show "affine_quantize_sb exact_lib w_rq s_rq s_rq 64 4 \<lparr>index = 0, device = cpu\<rparr> =
       Inr (fallback_result (affine_quantize_sb_fallback exact_lib 64 4 8 [w_rq, s_rq, s_rq] ! 0))"
    by (simp add: affine_quantize_sb_def Let_def el) (simp add: w_rq_def ndim_def)
  show "affine_quantize_sb exact_lib w_rq s_rq s_rq 64 4 \<lparr>index = 0, device = gpu\<rparr> =
       Inr (primitive_node [1, 16] uint32
              (AffineQuantize \<lparr>index = 0, device = gpu\<rparr>
                 (affine_quantize_sb_fallback exact_lib 64 4 8) 64 4 False)
              [w_rq, s_rq, s_rq])"
    by (simp add: affine_quantize_sb_def Let_def el sh) (simp add: w_rq_def ndim_def set_back_def)
qed

subsection \<open>\<^verbatim>\<open>custom_kernel\<close>\<close>

text \<open>
  Claim C10. \<^verbatim>\<open>custom_kernel\<close> returns a result exactly when the stream's device is the
  GPU, and then it is one \<^verbatim>\<open>CustomKernel\<close> node per declared output. On any other device
  control reaches the end of the function body: no value is returned and no
  \<^verbatim>\<open>std::invalid_argument\<close> is raised.
\<close>

theorem custom_kernel_gpu_only:
  "((\<exists>outs. custom_kernel inputs source output_shapes output_dtypes grid threadgroup
             ensure_row_contiguous s = Inr outs) \<longleftrightarrow> device s = gpu)
   \<and> (device s = gpu \<longrightarrow>
        custom_kernel inputs source output_shapes output_dtypes grid threadgroup
          ensure_row_contiguous s =
        Inr (make_arrays (map snd output_shapes) (map (\<lambda>p. output_dtypes (fst p)) output_shapes)
               (CustomKernel s source) (map snd inputs)))
   \<and> (device s \<noteq> gpu \<longrightarrow>
        custom_kernel inputs source output_shapes output_dtypes grid threadgroup
          ensure_row_contiguous s = Inl falls_off_end)
   \<and> (\<forall>msg. custom_kernel inputs source output_shapes output_dtypes grid threadgroup
          ensure_row_contiguous s \<noteq> Inl (invalid_argument msg))"
  by (auto simp: custom_kernel_def Let_def case_prod_unfold)

theorem custom_kernel_gpu_only_witness:
  "custom_kernel [(''a'', x_ex)] ''out[0] = a[0];'' [(''out'', [1])] (\<lambda>name. float32)
     (1, 1, 1) (1, 1, 1) True \<lparr>index = 0, device = cpu\<rparr> = Inl falls_off_end
   \<and> custom_kernel [(''a'', x_ex)] ''out[0] = a[0];'' [(''out'', [1])] (\<lambda>name. float32)
     (1, 1, 1) (1, 1, 1) True \<lparr>index = 0, device = gpu\<rparr>
     = Inr [primitive_node [1] float32
              (CustomKernel \<lparr>index = 0, device = gpu\<rparr> ''out[0] = a[0];'') [x_ex]]"
  using custom_kernel_gpu_only [of "[(''a'', x_ex)]" "''out[0] = a[0];''" "[(''out'', [1])]"
      "\<lambda>name. float32" "(1, 1, 1)" "(1, 1, 1)" True "\<lparr>index = 0, device = cpu\<rparr>"]
    custom_kernel_gpu_only [of "[(''a'', x_ex)]" "''out[0] = a[0];''" "[(''out'', [1])]"
      "\<lambda>name. float32" "(1, 1, 1)" "(1, 1, 1)" True "\<lparr>index = 0, device = gpu\<rparr>"]
  by (simp add: make_arrays_def)

subsection \<open>The bias gradient of \<^verbatim>\<open>LayerNorm::vjp\<close>\<close>

text \<open>For a 0-dimensional bias the fallback returns zeros shaped like the weight.\<close>

lemma LayerNorm_vjp_db_absent:
  "ndim b = 0 \<Longrightarrow> LayerNorm_vjp_fallback L eps [x, w, b, g] ! 2 = zeros_like w"
  by (simp add: LayerNorm_vjp_fallback_def Let_def)

text \<open>
  Claim C6 says that the zero gradient returned for an absent bias has the shape of the
  absent bias, a 0-dimensional scalar. With a weight of shape \<open>[3]\<close> and the bias absent
  (the 0-dimensional scalar \<open>0\<close>), the bias gradient computed by the fallback of
  \<^verbatim>\<open>LayerNorm::vjp\<close> has shape \<open>[3]\<close>: the source returns \<^verbatim>\<open>zeros_like(w)\<close> in the
  branch for the bias.
\<close>

theorem LayerNorm_vjp_absent_bias_gradient:
  "ndim (array_scalar 0 float32) = 0
   \<and> shape (LayerNorm_vjp_fallback exact_lib (1 / 100000)
              [x_ln, w_ln, array_scalar 0 float32, x_ln] ! 2) = [3]
   \<and> shape (array_scalar 0 float32) = []"
proof -
  have z: "ndim (array_scalar 0 float32) = 0"
    by (simp add: array_scalar_def ndim_def)
  have "shape (zeros_like w_ln) = [3]"
    by (simp add: zeros_like_def w_ln_def)
  with z show ?thesis
    by (simp add: LayerNorm_vjp_db_absent) (simp add: array_scalar_def)
qed

subsection \<open>Packing and unpacking quantized values\<close>

lemma val_bound: "\<forall>x\<in>set xs. x < B \<Longrightarrow> val B xs < B ^ length xs"
proof (induction xs)
  case Nil
  then show ?case by simp
next
  case (Cons x xs)
  then have v: "val B xs < B ^ length xs" and x: "x < B" by simp_all
  then have "val B xs + 1 \<le> B ^ length xs" by simp
  then have "B * (val B xs + 1) \<le> B * B ^ length xs" by (rule mult_le_mono2)
  with x show ?case by simp
qed

lemma val_digit:
  "\<forall>x\<in>set xs. x < B \<Longrightarrow> k < length xs \<Longrightarrow> val B xs div B ^ k mod B = xs ! k"
proof (induction xs arbitrary: k)
  case Nil
  then show ?case by simp
next
  case (Cons x xs)
  then have x: "x < B" by simp
  show ?case
  proof (cases k)
    case 0
    with x show ?thesis by simp
  next
    case (Suc j)
    have "(x + B * val B xs) div B ^ Suc j = (x + B * val B xs) div B div B ^ j"
      by (simp add: div_mult2_eq)
    also have "(x + B * val B xs) div B = val B xs"
      using x by simp
    finally show ?thesis
      using Cons Suc by simp
  qed
qed

lemma arange_int_from:
  "0 < b \<Longrightarrow> arange_int (e - int n * b) e b = map (\<lambda>k. e - int n * b + int k * b) [0..<n]"
proof (induction n)
  case 0
  then show ?case by (simp add: arange_int.simps [of e])
next
  case (Suc n)
  have st: "e - int (Suc n) * b + b = e - int n * b"
    by (simp add: algebra_simps)
  have lt: "e - int (Suc n) * b < e \<and> 0 < b"
    using Suc.prems by simp
  have "arange_int (e - int (Suc n) * b) e b
          = (e - int (Suc n) * b) # arange_int (e - int (Suc n) * b + b) e b"
    by (subst arange_int.simps) (simp only: lt if_True simp_thms)
  also have "\<dots> = (e - int (Suc n) * b) # arange_int (e - int n * b) e b"
    by (simp only: st)
  also have "arange_int (e - int n * b) e b = map (\<lambda>k. e - int n * b + int k * b) [0..<n]"
    using Suc by simp
  also have "(e - int (Suc n) * b) # map (\<lambda>k. e - int n * b + int k * b) [0..<n]
          = map (\<lambda>k. e - int (Suc n) * b + int k * b) [0..<Suc n]"
    by (simp add: upt_conv_Cons map_Suc_upt [symmetric] algebra_simps del: upt_Suc)
  finally show ?case .
qed

lemma field_eq:
  fixes w :: "32 word"
  assumes "s + b \<le> 32"
  shows "drop_bit (32 - b) (push_bit (32 - (s + b)) w) = take_bit b (drop_bit s w)"
  using assms by (intro bit_eqI) (auto simp: bit_simps add.commute)

lemma pack_sum_val:
  fixes qs :: "32 word list"
  shows "sum_list (map (\<lambda>(q, sh). q * sh) (zip qs (map (\<lambda>k. 2 ^ ((j + k) * b)) [0..<length qs])))
           = 2 ^ (j * b) * word_of_nat (val (2 ^ b) (map unat qs))"
proof (induction qs arbitrary: j)
  case Nil
  then show ?case by simp
next
  case (Cons q qs)
  have up: "[0..<length (q # qs)] = 0 # map Suc [0..<length qs]"
    by (simp add: upt_conv_Cons map_Suc_upt del: upt_Suc)
  have "sum_list (map (\<lambda>(q, sh). q * sh)
          (zip (q # qs) (map (\<lambda>k. 2 ^ ((j + k) * b)) [0..<length (q # qs)])))
        = q * 2 ^ (j * b) + sum_list (map (\<lambda>(q, sh). q * sh)
            (zip qs (map (\<lambda>k. 2 ^ ((Suc j + k) * b)) [0..<length qs])))"
    unfolding up by (simp add: comp_def)
  also have "\<dots> = q * 2 ^ (j * b) + 2 ^ (Suc j * b) * word_of_nat (val (2 ^ b) (map unat qs))"
    by (simp only: Cons.IH)
  also have "\<dots> = 2 ^ (j * b) * word_of_nat (val (2 ^ b) (map unat (q # qs)))"
    by (simp add: algebra_simps power_add)
  finally show ?case .
qed

lemma unat_field:
  fixes P :: "32 word"
  shows "unat (take_bit b (drop_bit s P)) = unat P div 2 ^ s mod 2 ^ b"
proof -
  have "unat (take_bit b (drop_bit s P)) = take_bit b (drop_bit s (unat P))"
    by (simp only: unsigned_take_bit_eq unat_drop_bit_eq)
  then show ?thesis
    by (simp add: take_bit_eq_mod drop_bit_eq_div)
qed

lemma arange_int_0_32:
  assumes "0 < b" and "n * b = 32"
  shows "arange_int 0 32 (int b) = map (\<lambda>k. int k * int b) [0..<n]"
proof -
  have "int (n * b) = 32"
    by (simp only: assms(2))
  then have z: "32 - int n * int b = 0"
    by simp
  have "arange_int (32 - int n * int b) 32 (int b)
          = map (\<lambda>k. 32 - int n * int b + int k * int b) [0..<n]"
    using assms(1) by (intro arange_int_from) simp
  then show ?thesis
    by (simp only: z add_0)
qed

lemma shifts_eq:
  assumes "0 < b" and "n * b = 32"
  shows "shifts (int b) = map (\<lambda>k. 2 ^ (k * b)) [0..<n]"
  by (simp add: shifts_def arange_int_0_32 [OF assms] comp_def nat_mult_distrib)

lemma unpack_word_arange:
  "unpack_word bits start w =
     map (\<lambda>st. drop_bit (nat ((32 - bits) mod 2 ^ 32))
                 (push_bit (nat ((32 - (st + bits)) mod 2 ^ 32)) w))
       (arange_int start 32 bits)"
proof (induction bits start w rule: unpack_word.induct)
  case (1 bits start w)
  show ?case
  proof (cases "start < 32 \<and> 0 < bits")
    case True
    have "unpack_word bits start w =
            drop_bit (nat ((32 - bits) mod 2 ^ 32))
              (push_bit (nat ((32 - (start + bits)) mod 2 ^ 32)) w)
            # unpack_word bits (start + bits) w"
      by (subst unpack_word.simps) (simp only: True if_True simp_thms)
    moreover have "arange_int start 32 bits = start # arange_int (start + bits) 32 bits"
      by (subst arange_int.simps) (simp only: True if_True simp_thms)
    ultimately show ?thesis
      using "1.IH" [OF True] by simp
  next
    case False
    have "unpack_word bits start w = []"
      by (subst unpack_word.simps) (simp only: False if_False simp_thms)
    moreover have "arange_int start 32 bits = []"
      by (subst arange_int.simps) (simp only: False if_False simp_thms)
    ultimately show ?thesis by simp
  qed
qed

lemma unpack_word_fields:
  assumes "0 < b" and "n * b = 32"
  shows "unpack_word (int b) 0 w = map (\<lambda>k. take_bit b (drop_bit (k * b) w)) [0..<n]"
proof -
  have "b dvd 32"
    using assms(2) by (metis dvd_triv_right)
  then have b32: "b \<le> 32"
    by (rule dvd_imp_le) simp
  have part: "drop_bit (nat ((32 - int b) mod 2 ^ 32))
                (push_bit (nat ((32 - (int k * int b + int b)) mod 2 ^ 32)) w)
              = take_bit b (drop_bit (k * b) w)" if "k < n" for k
  proof -
    from that have "Suc k * b \<le> n * b"
      by (intro mult_le_mono1) simp
    then have le: "k * b + b \<le> 32"
      using assms(2) by simp
    have m1: "nat ((32 - int b) mod 2 ^ 32) = 32 - b"
      using b32 by (simp add: nat_diff_distrib')
    have e: "32 - (int k * int b + int b) = int (32 - (k * b + b))"
      using le by simp
    have "int (32 - (k * b + b)) mod 2 ^ 32 = int (32 - (k * b + b))"
      by (intro mod_pos_pos_trivial) auto
    then have m2: "nat ((32 - (int k * int b + int b)) mod 2 ^ 32) = 32 - (k * b + b)"
      by (simp only: e nat_int)
    show ?thesis
      unfolding m1 m2 using le by (rule field_eq)
  qed
  have "map (\<lambda>st. drop_bit (nat ((32 - int b) mod 2 ^ 32))
                 (push_bit (nat ((32 - (st + int b)) mod 2 ^ 32)) w))
          (map (\<lambda>k. int k * int b) [0..<n])
        = map (\<lambda>k. take_bit b (drop_bit (k * b) w)) [0..<n]"
    unfolding map_map comp_def
    by (rule map_cong [OF refl]) (simp only: part atLeastLessThan_iff set_upt)
  then show ?thesis
    by (simp only: unpack_word_arange arange_int_0_32 [OF assms])
qed

lemma pack_unpack_core:
  fixes qs :: "32 word list"
  assumes b: "0 < b" and nb: "n * b = 32" and len: "length qs = n"
    and small: "\<forall>q\<in>set qs. unat q < 2 ^ b"
  shows "unpack_word (int b) 0 (pack_word (int b) qs) = qs"
proof -
  let ?V = "val (2 ^ b) (map unat qs)"
  let ?P = "pack_word (int b) qs"
  have "?P = sum_list (map (\<lambda>(q, sh). q * sh)
               (zip qs (map (\<lambda>k. 2 ^ ((0 + k) * b)) [0..<length qs])))"
    by (simp add: pack_word_def shifts_eq [OF b nb] len)
  also have "\<dots> = 2 ^ (0 * b) * word_of_nat ?V"
    by (rule pack_sum_val)
  finally have P: "?P = word_of_nat ?V" by simp
  have "?V < (2 ^ b) ^ length (map unat qs)"
    using small by (intro val_bound) simp
  then have "?V < 2 ^ 32"
    using nb len by (simp add: power_mult [symmetric] mult.commute)
  then have uP: "unat ?P = ?V"
    by (simp add: P unat_of_nat)
  have field: "take_bit b (drop_bit (k * b) ?P) = qs ! k" if "k < n" for k
  proof -
    have "unat (take_bit b (drop_bit (k * b) ?P)) = ?V div 2 ^ (k * b) mod 2 ^ b"
      by (simp only: unat_field uP)
    also have "\<dots> = ?V div (2 ^ b) ^ k mod 2 ^ b"
      by (simp add: power_mult [symmetric] mult.commute)
    also have "\<dots> = map unat qs ! k"
      using small that len by (intro val_digit) simp_all
    also have "\<dots> = unat (qs ! k)"
      using that len by simp
    finally show ?thesis
      by (simp only: word_unat_eq_iff)
  qed
  have "unpack_word (int b) 0 ?P = map (\<lambda>k. take_bit b (drop_bit (k * b) ?P)) [0..<n]"
    using b nb by (rule unpack_word_fields)
  also have "\<dots> = map (\<lambda>k. qs ! k) [0..<n]"
    using field by simp
  also have "\<dots> = qs"
    unfolding len [symmetric] by (rule map_nth)
  finally show ?thesis .
qed

lemma unpack_word_inj:
  assumes "0 < b" and "n * b = 32"
    and eq: "unpack_word (int b) 0 w = unpack_word (int b) 0 w'"
  shows "w = w'"
proof (rule bit_eqI)
  fix i
  assume "possible_bit TYPE(32 word) i"
  then have i: "i < 32" by (simp add: possible_bit_def)
  let ?k = "i div b"
  have "?k * b \<le> i" by simp
  have k: "?k < n"
    using i assms by (metis div_less_iff_less_mult mult.commute)
  have j: "i mod b < b" using assms(1) by simp
  from eq have "map (\<lambda>k. take_bit b (drop_bit (k * b) w)) [0..<n]
              = map (\<lambda>k. take_bit b (drop_bit (k * b) w')) [0..<n]"
    by (simp only: unpack_word_fields [OF assms(1,2)])
  then have "take_bit b (drop_bit (?k * b) w) = take_bit b (drop_bit (?k * b) w')"
    using k by (simp add: map_eq_conv)
  then have "bit (take_bit b (drop_bit (?k * b) w)) (i mod b)
           = bit (take_bit b (drop_bit (?k * b) w')) (i mod b)"
    by simp
  then have "bit w (?k * b + i mod b) = bit w' (?k * b + i mod b)"
    using j by (simp add: bit_simps)
  then show "bit w i = bit w' i"
    by (simp add: mult.commute)
qed

text \<open>
  Claim C5. For \<open>bits\<close> in \<open>{2, 4, 8}\<close>, packing \<open>32 / bits\<close> values, each between 0 and
  \<open>2 ^ bits - 1\<close>, into one 32-bit word as \<open>\<Sum> q\<^sub>i * 2 ^ (bits * i)\<close> and unpacking the word
  with the shift pairs of the dequantize fallback gives back the values in their order.
  Conversely every word unpacks into \<open>32 / bits\<close> values in that range which pack to the
  same word, so the layout is a bijection.
\<close>

theorem pack_unpack_roundtrip:
  assumes bits: "bits \<in> {2, 4, 8}"
  shows "(length qs = nat (32 div bits) \<and> (\<forall>q\<in>set qs. q \<le> 2 ^ nat bits - 1)
            \<longrightarrow> unpack_word bits 0 (pack_word bits qs) = qs)
       \<and> length (unpack_word bits 0 w) = nat (32 div bits)
       \<and> (\<forall>q\<in>set (unpack_word bits 0 w). q \<le> 2 ^ nat bits - 1)
       \<and> pack_word bits (unpack_word bits 0 w) = w"
proof -
  obtain b n :: nat where bn: "bits = int b" "0 < b" "n * b = 32" "n = nat (32 div bits)"
    and le_iff: "\<And>q :: 32 word. q \<le> 2 ^ nat bits - 1 \<longleftrightarrow> unat q < 2 ^ b"
  proof -
    from bits consider "bits = 2" | "bits = 4" | "bits = 8" by blast
    then show ?thesis
    proof cases
      case 1
      show ?thesis by (rule that [of 2 16]) (auto simp: 1 word_le_nat_alt)
    next
      case 2
      show ?thesis by (rule that [of 4 8]) (auto simp: 2 word_le_nat_alt)
    next
      case 3
      show ?thesis by (rule that [of 8 4]) (auto simp: 3 word_le_nat_alt)
    qed
  qed
  have round: "unpack_word bits 0 (pack_word bits qs) = qs"
    if "length qs = nat (32 div bits)" "\<forall>q\<in>set qs. q \<le> 2 ^ nat bits - 1" for qs
    unfolding bn(1)
    using bn(2,3) that by (intro pack_unpack_core) (simp_all add: bn(4) [symmetric] le_iff)
  have fields: "unpack_word bits 0 w = map (\<lambda>k. take_bit b (drop_bit (k * b) w)) [0..<n]"
    unfolding bn(1) using bn(2,3) by (rule unpack_word_fields)
  have len: "length (unpack_word bits 0 w) = nat (32 div bits)"
    by (simp add: fields bn(4))
  have small: "\<forall>q\<in>set (unpack_word bits 0 w). q \<le> 2 ^ nat bits - 1"
    by (auto simp: fields le_iff unsigned_take_bit_eq)
  have "unpack_word (int b) 0 (pack_word bits (unpack_word bits 0 w)) = unpack_word (int b) 0 w"
    using round [OF len small] by (simp only: bn(1))
  then have inv: "pack_word bits (unpack_word bits 0 w) = w"
    using bn(2,3) by (intro unpack_word_inj)
  from round len small inv show ?thesis by blast
qed

theorem pack_unpack_roundtrip_witness:
  "unpack_word 4 0 (pack_word 4 [1, 2, 3, 4, 5, 6, 7, 8]) = [1, 2, 3, 4, 5, 6, 7, 8]
   \<and> pack_word 4 (unpack_word 4 0 0x87654321) = 0x87654321"
  using pack_unpack_roundtrip [of 4 "[1, 2, 3, 4, 5, 6, 7, 8]" "0x87654321"]
  by simp

subsection \<open>Dequantization: validation and the shapes of the fallback\<close>

lemma set_back_snoc: "sh \<noteq> [] \<Longrightarrow> set_back sh v = butlast sh @ [v]"
  by (cases sh rule: rev_cases) (simp_all add: set_back_def)

lemma shape_at_last: "shape a \<noteq> [] \<Longrightarrow> shape_at a (- 1) = last (shape a)"
  by (simp add: shape_at_def ndim_def last_conv_nth nat_diff_distrib')

lemma broadcast_shapes_scalar: "broadcast_shapes sh [] = Inr sh"
proof -
  have z: "zip sh (replicate (length sh) (1 :: int)) = map (\<lambda>m. (m, 1)) sh"
    by (induction sh) simp_all
  show ?thesis
    by (simp add: broadcast_shapes_def Let_def z list_all_iff comp_def cong: if_cong)
qed

lemma broadcast_shapes_group:
  "broadcast_shapes (ds @ [l, g]) (ds @ [l, 1]) = Inr (ds @ [l, g])"
proof -
  have z: "zip ds ds = map (\<lambda>d. (d, d)) ds"
    by (simp add: zip_same_conv_map)
  show ?thesis
    by (simp add: broadcast_shapes_def Let_def z list_all_iff comp_def)
qed

lemma shift_scalar:
  "\<exists>d. binary_op f t a (array_scalar k t') = Inr \<lparr>shape = shape a, dtype = t, data = d\<rparr>"
  by (simp add: binary_op_def array_scalar_def broadcast_shapes_scalar Let_def)

lemma dequantize_parts_shape:
  "\<exists>ps. dequantize_parts w bits start = Inr ps
        \<and> length ps = length (arange_int start 32 bits)
        \<and> (\<forall>p\<in>set ps. shape p = shape w @ [1])"
proof (induction w bits start rule: dequantize_parts.induct)
  case (1 w bits start)
  show ?case
  proof (cases "start < 32 \<and> 0 < bits")
    case False
    have "dequantize_parts w bits start = Inr []"
      by (subst dequantize_parts.simps) (simp only: False if_False)
    moreover have "arange_int start 32 bits = []"
      by (subst arange_int.simps) (simp only: False if_False)
    ultimately show ?thesis by simp
  next
    case True
    obtain d1 where l: "left_shift w
        (array_scalar (real_of_int ((32 - (start + bits)) mod 2 ^ 32)) uint32)
          = Inr \<lparr>shape = shape w, dtype = uint32, data = d1\<rparr>"
      unfolding left_shift_def using shift_scalar by blast
    obtain d2 where r: "right_shift \<lparr>shape = shape w, dtype = uint32, data = d1\<rparr>
        (array_scalar (real_of_int ((32 - bits) mod 2 ^ 32)) uint32)
          = Inr \<lparr>shape = shape w, dtype = uint32, data = d2\<rparr>"
      unfolding right_shift_def
      using shift_scalar [of _ uint32 "\<lparr>shape = shape w, dtype = uint32, data = d1\<rparr>"]
      by (simp only: array.simps) blast
    from "1.IH" [OF True l r]
    obtain ps where ps: "dequantize_parts w bits (start + bits) = Inr ps"
      "length ps = length (arange_int (start + bits) 32 bits)"
      "\<forall>p\<in>set ps. shape p = shape w @ [1]"
      by blast
    have "dequantize_parts w bits start
            = Inr (expand_dims_last \<lparr>shape = shape w, dtype = uint32, data = d2\<rparr> # ps)"
      by (subst dequantize_parts.simps) (simp only: True if_True l r ps(1) sum.case simp_thms)
    moreover have "arange_int start 32 bits = start # arange_int (start + bits) 32 bits"
      using True by (subst arange_int.simps) simp
    ultimately show ?thesis
      using ps(2,3) by (simp add: expand_dims_last_def)
  qed
qed

lemma concatenate_last_parts:
  assumes ne: "ps \<noteq> []" and sh: "\<forall>p\<in>set ps. shape p = sh @ [1]"
  shows "\<exists>c. concatenate_last L ps = Inr c \<and> shape c = sh @ [int (length ps)]"
proof -
  have h: "shape (hd ps) = sh @ [1]"
    using ne sh by simp
  have a: "list_all (\<lambda>a. ndim a = ndim (hd ps)) ps"
    using sh h by (simp add: list_all_iff ndim_def)
  have b: "list_all (\<lambda>a. butlast (shape a) = butlast (shape (hd ps))) ps"
    using sh h by (simp add: list_all_iff)
  have m: "map (\<lambda>a. last (shape a)) ps = map (\<lambda>a. 1) ps"
    using sh by (intro map_cong [OF refl]) simp
  have "sum_list (map (\<lambda>a. 1) ps) = int (length ps)"
    by (induction ps) simp_all
  then have c: "sum_list (map (\<lambda>a. last (shape a)) ps) = int (length ps)"
    by (simp only: m)
  show ?thesis
    using ne a b by (simp add: concatenate_last_def Let_def h ndim_def c)
qed

lemma prod_list_positive: "\<forall>d\<in>set ds. (0 :: int) < d \<Longrightarrow> 0 < prod_list ds"
  by (induction ds) simp_all

lemma map_replace_absent: "v \<notin> set xs \<Longrightarrow> map (\<lambda>d. if d = v then r else d) xs = xs"
  by (induction xs) auto

lemma reshape_infer:
  assumes ds: "\<forall>d\<in>set ds. 0 < d" and es: "\<forall>d\<in>set es. 0 < d"
    and sz: "int (array_size a) = prod_list ds * q * prod_list es"
    and ne: "shape a \<noteq> ds @ [- 1] @ es"
  shows "reshape a (ds @ [- 1] @ es) = Inr (a\<lparr>shape := ds @ [q] @ es\<rparr>)"
proof -
  have nd: "- 1 \<notin> set ds" "- 1 \<notin> set es"
    using ds es by auto
  have cnt: "count_list (ds @ [- 1] @ es) (- 1) = 1"
    using nd by (simp add: count_list_0_iff)
  have rm: "removeAll (- 1) (ds @ [- 1] @ es) = ds @ es"
    using nd by simp
  have pd: "0 < prod_list ds" "0 < prod_list es"
    using ds es by (simp_all add: prod_list_positive)
  then have kn: "0 < prod_list ds * prod_list es"
    by simp
  have q: "int (array_size a) div (prod_list ds * prod_list es) = q"
  proof -
    have e: "int (array_size a) = q * (prod_list ds * prod_list es)"
      by (simp add: sz algebra_simps)
    have "prod_list ds * prod_list es \<noteq> 0"
      using pd by simp
    then show ?thesis
      unfolding e by (rule nonzero_mult_div_cancel_right)
  qed
  have mp: "map (\<lambda>d. if d = - 1 then int (array_size a) div (prod_list ds * prod_list es) else d)
              (ds @ [- 1] @ es) = ds @ [q] @ es"
    using nd by (simp add: q map_replace_absent)
  show ?thesis
    unfolding reshape_def
    by (simp only: ne cnt rm Let_def prod_list.append kn mp if_False if_True simp_thms
          less_irrefl)
      (simp add: sz)
qed

lemma length_arange_int_dvd:
  assumes "0 < bits" "bits dvd 32"
  shows "length (arange_int 0 32 bits) = nat (32 div bits)"
proof -
  have "32 - int (nat (32 div bits)) * bits = 0"
    using assms by (simp add: pos_imp_zdiv_nonneg_iff)
  with arange_int_from [of bits 32 "nat (32 div bits)"] assms(1)
  show ?thesis by simp
qed

lemma binary_op_group:
  assumes "shape a = ds @ [l, g]" "shape b = ds @ [l, 1]"
  shows "\<exists>d. binary_op f t a b = Inr \<lparr>shape = ds @ [l, g], dtype = t, data = d\<rparr>"
  by (simp add: binary_op_def assms broadcast_shapes_group Let_def)

lemma affine_dequantize_fallback_returns:
  assumes b: "0 < bits" "bits dvd 32" and g: "0 < group_size"
    and w: "shape w = ds @ [lw]" and sc: "shape scales = ds @ [ls]"
    and bi: "shape biases = ds @ [ls]"
    and ds: "\<forall>d\<in>set ds. 0 < d" and lw: "0 \<le> lw"
    and rel: "lw * (32 div bits) = ls * group_size"
  shows "\<exists>y. affine_dequantize_fallback L (ds @ [- 1]) (ds @ [- 1]) group_size bits el
               [w, scales, biases] = Inr [y]
            \<and> shape y = ds @ [lw * (32 div bits)]"
proof -
  have el: "0 < 32 div bits"
    using b by (simp add: pos_imp_zdiv_pos_iff zdvd_imp_le)
  obtain ps where ps: "dequantize_parts w bits 0 = Inr ps"
    "length ps = length (arange_int 0 32 bits)" "\<forall>p\<in>set ps. shape p = shape w @ [1]"
    using dequantize_parts_shape by blast
  have len: "int (length ps) = 32 div bits"
    using el by (simp add: ps(2) length_arange_int_dvd [OF b])
  then have ne: "ps \<noteq> []"
    using el by auto
  obtain c where c: "concatenate_last L ps = Inr c" "shape c = shape w @ [int (length ps)]"
    using concatenate_last_parts [OF ne ps(3)] by blast
  have shc: "shape c = ds @ [lw, 32 div bits]"
    by (simp add: c(2) w len)
  have pd: "0 < prod_list ds"
    using ds by (rule prod_list_positive)
  have szc: "int (array_size c) = prod_list ds * ls * prod_list [group_size]"
  proof -
    have "0 \<le> prod_list ds * (lw * (32 div bits))"
      using pd lw el by simp
    then have "int (array_size c) = prod_list ds * (lw * (32 div bits))"
      by (simp add: array_size_def shc)
    then show ?thesis by (simp add: rel)
  qed
  have nec: "shape c \<noteq> ds @ [- 1] @ [group_size]"
    using lw by (simp add: shc)
  have r1: "reshape c ((ds @ [- 1]) @ [group_size]) = Inr (c\<lparr>shape := ds @ [ls] @ [group_size]\<rparr>)"
    using reshape_infer [OF ds _ szc nec] g by simp
  define c1 where "c1 = c\<lparr>shape := ds @ [ls] @ [group_size]\<rparr>"
  have sh1: "shape c1 = ds @ [ls, group_size]"
    by (simp add: c1_def)
  obtain d2 where m: "multiply L c1 (expand_dims_last scales)
      = Inr \<lparr>shape = ds @ [ls, group_size], dtype = result_type L [dtype c1, dtype scales], data = d2\<rparr>"
    using binary_op_group [OF sh1, of "expand_dims_last scales"]
    by (auto simp: multiply_def expand_dims_last_def sc)
  define c2 where "c2 = \<lparr>shape = ds @ [ls, group_size],
      dtype = result_type L [dtype c1, dtype scales], data = d2\<rparr>"
  have sh2: "shape c2 = ds @ [ls, group_size]"
    by (simp add: c2_def)
  obtain d3 where a: "add L c2 (expand_dims_last biases)
      = Inr \<lparr>shape = ds @ [ls, group_size], dtype = result_type L [dtype c2, dtype biases], data = d3\<rparr>"
    using binary_op_group [OF sh2, of "expand_dims_last biases"]
    by (auto simp: add_def expand_dims_last_def bi)
  define c3 where "c3 = \<lparr>shape = ds @ [ls, group_size],
      dtype = result_type L [dtype c2, dtype biases], data = d3\<rparr>"
  have sh3: "shape c3 = ds @ [ls, group_size]"
    by (simp add: c3_def)
  have sz3: "int (array_size c3) = prod_list ds * (ls * group_size) * prod_list []"
  proof -
    have "0 \<le> prod_list ds * (lw * (32 div bits))"
      using pd lw el by simp
    then have "0 \<le> prod_list ds * (ls * group_size)"
      by (simp only: rel)
    then show ?thesis
      by (simp add: array_size_def sh3)
  qed
  have ne3: "shape c3 \<noteq> ds @ [- 1] @ []"
    by (simp add: sh3)
  have r2: "reshape c3 (ds @ [- 1]) = Inr (c3\<lparr>shape := ds @ [ls * group_size] @ []\<rparr>)"
    using reshape_infer [OF ds _ sz3 ne3] by simp
  have "affine_dequantize_fallback L (ds @ [- 1]) (ds @ [- 1]) group_size bits el
          [w, scales, biases] = Inr [c3\<lparr>shape := ds @ [ls * group_size] @ []\<rparr>]"
    unfolding affine_dequantize_fallback_def
    by (simp only: Let_def nth_Cons_0 nth_Cons_Suc One_nat_def numeral_2_eq_2 ps(1) c(1) r1
          sum.case c1_def [symmetric] m c2_def [symmetric] a c3_def [symmetric] r2)
  then show ?thesis
    by (simp add: rel)
qed

lemma shape_snoc: "shape a \<noteq> [] \<Longrightarrow> shape a = butlast (shape a) @ [shape_at a (- 1)]"
  by (simp add: shape_at_last)

text \<open>
  Claim C9, as the code has it. \<^verbatim>\<open>affine_dequantize\<close> itself accepts every positive bit
  width and group size: if \<open>bits\<close> and \<open>group_size\<close> are positive, the three arrays
  have at least two dimensions and agree on all but the last one, \<open>w\<close> is \<open>uint32\<close> and
  \<open>w.shape(-1) * (32 / bits) = scales.shape(-1) * group_size\<close>, then no test of the operator
  fails. On the GPU it returns the \<^verbatim>\<open>AffineQuantize\<close> node. Off the GPU it runs the
  unpacking fallback, and its outcome is the fallback's: when \<open>bits\<close> divides 32, the leading
  dimensions are positive and the biases are as wide as the scales, the fallback returns an
  array of width \<open>w.shape(-1) * (32 / bits)\<close>.
\<close>

theorem affine_dequantize_accepts:
  fixes L :: lib and w scales biases :: array and group_size bits :: int and s :: Stream
  defines "fb \<equiv> affine_dequantize_fallback L (set_back (shape w) (- 1))
                   (set_back (shape scales) (- 1)) group_size bits (32 div bits)"
  assumes pre: "0 < bits" "0 < group_size"
    "2 \<le> ndim w" "2 \<le> ndim scales" "2 \<le> ndim biases"
    "set_back (shape w) (- 1) = set_back (shape scales) (- 1)"
    "set_back (shape w) (- 1) = set_back (shape biases) (- 1)"
    "dtype w = uint32"
    "shape_at w (- 1) * (32 div bits) = shape_at scales (- 1) * group_size"
  shows "(device s = gpu \<longrightarrow>
            affine_dequantize L w scales biases group_size bits s =
              Inr (primitive_node
                     (set_back (shape w) (wrap32 (shape_at w (- 1) * (32 div bits))))
                     (dtype scales) (AffineQuantize s (stored fb) group_size bits True)
                     [w, scales, biases]))
       \<and> (device s \<noteq> gpu \<longrightarrow>
            affine_dequantize L w scales biases group_size bits s =
              (case fb [w, scales, biases] of
                 Inl e \<Rightarrow> Inl e
               | Inr outs \<Rightarrow> Inr (fallback_result (outs ! 0))))
       \<and> (device s \<noteq> gpu \<and> bits dvd 32 \<and> (\<forall>d\<in>set (butlast (shape w)). 0 < d)
            \<and> 0 \<le> shape_at w (- 1) \<and> shape_at biases (- 1) = shape_at scales (- 1) \<longrightarrow>
            (\<exists>y. affine_dequantize L w scales biases group_size bits s = Inr (fallback_result y)
               \<and> shape y = set_back (shape w) (shape_at w (- 1) * (32 div bits))))"
proof -
  have el: "cdiv 32 bits = 32 div bits"
    using pre(1) by (intro cdiv_nonneg) auto
  have c1: "\<not> bits \<le> 0" "\<not> group_size \<le> 0"
    using pre(1,2) by simp_all
  have c2: "\<not> (ndim w < 2 \<or> ndim scales < 2 \<or> ndim biases < 2)"
    using pre(3,4,5) by simp
  have c3: "\<not> (set_back (shape w) (- 1) \<noteq> set_back (shape scales) (- 1)
              \<or> set_back (shape w) (- 1) \<noteq> set_back (shape biases) (- 1))"
    using pre(6,7) by simp
  have c4: "\<not> dtype w \<noteq> uint32"
    using pre(8) by simp
  have c5: "\<not> wrap32 (shape_at w (- 1) * (32 div bits))
              \<noteq> wrap32 (shape_at scales (- 1) * group_size)"
    using pre(9) by simp
  have unf: "affine_dequantize L w scales biases group_size bits s =
      (if device s = gpu then
         Inr (primitive_node
                (set_back (shape w) (wrap32 (shape_at w (- 1) * (32 div bits))))
                (dtype scales) (AffineQuantize s (stored fb) group_size bits True)
                [w, scales, biases])
       else (case fb [w, scales, biases] of
               Inl e \<Rightarrow> Inl e
             | Inr outs \<Rightarrow> Inr (fallback_result (outs ! 0))))"
    unfolding affine_dequantize_def fb_def
    by (simp only: c1 c2 c3 c4 c5 el Let_def if_False)
  have ret: "\<exists>y. affine_dequantize L w scales biases group_size bits s = Inr (fallback_result y)
               \<and> shape y = set_back (shape w) (shape_at w (- 1) * (32 div bits))"
    if dev: "device s \<noteq> gpu" and dv: "bits dvd 32"
      and pos: "\<forall>d\<in>set (butlast (shape w)). 0 < d" and lw: "0 \<le> shape_at w (- 1)"
      and bl: "shape_at biases (- 1) = shape_at scales (- 1)"
  proof -
    have ne: "shape w \<noteq> []" "shape scales \<noteq> []" "shape biases \<noteq> []"
      using pre(3,4,5) by (auto simp: ndim_def)
    have bs: "butlast (shape scales) = butlast (shape w)"
      "butlast (shape biases) = butlast (shape w)"
      using pre(6,7) by (simp_all add: set_back_snoc ne)
    have w: "shape w = butlast (shape w) @ [shape_at w (- 1)]"
      using ne(1) by (rule shape_snoc)
    have sc: "shape scales = butlast (shape w) @ [shape_at scales (- 1)]"
      using shape_snoc [OF ne(2)] by (simp only: bs)
    have bi: "shape biases = butlast (shape w) @ [shape_at scales (- 1)]"
      using shape_snoc [OF ne(3)] by (simp only: bs bl)
    from affine_dequantize_fallback_returns [OF pre(1) dv pre(2) w sc bi pos lw pre(9)]
    obtain y where y: "affine_dequantize_fallback L (butlast (shape w) @ [- 1])
          (butlast (shape w) @ [- 1]) group_size bits (32 div bits) [w, scales, biases] = Inr [y]"
      "shape y = butlast (shape w) @ [shape_at w (- 1) * (32 div bits)]"
      by blast
    have "fb [w, scales, biases] = Inr [y]"
      unfolding fb_def by (simp only: set_back_snoc [OF ne(1)] set_back_snoc [OF ne(2)] bs y(1))
    then have "affine_dequantize L w scales biases group_size bits s = Inr (fallback_result y)"
      using dev by (simp add: unf)
    then show ?thesis
      using y(2) by (simp add: set_back_snoc [OF ne(1)])
  qed
  from unf ret show ?thesis by simp
qed

theorem affine_dequantize_accepts_witness:
  "(\<exists>y. affine_dequantize exact_lib w16 sb16 sb16 16 16 \<lparr>index = 0, device = cpu\<rparr>
          = Inr (fallback_result y) \<and> shape y = [2, 64])
   \<and> affine_dequantize exact_lib wq_ex sb_ex sb_ex 64 5 \<lparr>index = 0, device = gpu\<rparr> =
       Inr (primitive_node [2, 192] float32
              (AffineQuantize \<lparr>index = 0, device = gpu\<rparr>
                 (stored (affine_dequantize_fallback exact_lib [2, - 1] [2, - 1] 64 5 6)) 64 5 True)
              [wq_ex, sb_ex, sb_ex])"
proof -
  have cpu: "0 < (16 :: int) \<and> 2 \<le> ndim w16 \<and> 2 \<le> ndim sb16
      \<and> set_back (shape w16) (- 1) = set_back (shape sb16) (- 1) \<and> dtype w16 = uint32
      \<and> shape_at w16 (- 1) * (32 div 16) = shape_at sb16 (- 1) * 16"
    by (simp add: w16_def sb16_def ndim_def set_back_def shape_at_def)
  have gpu: "0 < (5 :: int) \<and> 0 < (64 :: int) \<and> 2 \<le> ndim wq_ex \<and> 2 \<le> ndim sb_ex
      \<and> set_back (shape wq_ex) (- 1) = set_back (shape sb_ex) (- 1) \<and> dtype wq_ex = uint32
      \<and> shape_at wq_ex (- 1) * (32 div 5) = shape_at sb_ex (- 1) * 64"
    by (simp add: wq_ex_def sb_ex_def ndim_def set_back_def shape_at_def)
  have "\<exists>y. affine_dequantize exact_lib w16 sb16 sb16 16 16 \<lparr>index = 0, device = cpu\<rparr>
          = Inr (fallback_result y) \<and> shape y = [2, 64]"
    using affine_dequantize_accepts [where bits = 16 and group_size = 16 and w = w16
      and scales = sb16 and biases = sb16 and L = exact_lib
      and s = "\<lparr>index = 0, device = cpu\<rparr>", THEN conjunct2, THEN conjunct2] cpu
    by (simp add: w16_def sb16_def set_back_def shape_at_def ndim_def)
  moreover have "affine_dequantize exact_lib wq_ex sb_ex sb_ex 64 5 \<lparr>index = 0, device = gpu\<rparr> =
       Inr (primitive_node [2, 192] float32
              (AffineQuantize \<lparr>index = 0, device = gpu\<rparr>
                 (stored (affine_dequantize_fallback exact_lib [2, - 1] [2, - 1] 64 5 6)) 64 5 True)
              [wq_ex, sb_ex, sb_ex])"
    using affine_dequantize_accepts [where bits = 5 and group_size = 64 and w = wq_ex
      and scales = sb_ex and biases = sb_ex and L = exact_lib
      and s = "\<lparr>index = 0, device = gpu\<rparr>", THEN conjunct1] gpu
    by (simp add: wq_ex_def sb_ex_def set_back_def shape_at_def ndim_def wrap32_def)
  ultimately show ?thesis by blast
qed

text \<open>
  Claim C9 as stated fails at its own example \<open>bits = 5\<close>. The width test passes with
  \<open>32 / 5 = 6\<close> values per word, \<open>32 * 6 = 3 * 64\<close>, but the unpacking loop runs for
  \<open>start = 0, 5, ..., 30\<close> and yields seven parts per word. The \<open>2 * 32 * 7 = 448\<close>
  elements do not reshape to \<open>(2, -1, 64)\<close>, and off the GPU the call raises.
\<close>

theorem affine_dequantize_bits5_raises:
  "affine_dequantize exact_lib wq_ex sb_ex sb_ex 64 5 \<lparr>index = 0, device = cpu\<rparr>
     = Inl (invalid_argument ''[reshape] Cannot reshape array of size'')"
proof -
  have ar: "arange_int 0 32 5 = [0, 5, 10, 15, 20, 25, 30]"
    by code_simp
  obtain ps where ps: "dequantize_parts wq_ex 5 0 = Inr ps"
    "length ps = length (arange_int 0 32 5)" "\<forall>p\<in>set ps. shape p = shape wq_ex @ [1]"
    using dequantize_parts_shape by blast
  have ne: "ps \<noteq> []"
    using ps(2) by (auto simp: ar)
  obtain c where c: "concatenate_last exact_lib ps = Inr c"
    "shape c = shape wq_ex @ [int (length ps)]"
    using concatenate_last_parts [OF ne ps(3)] by blast
  have shc: "shape c = [2, 32, 7]"
    by (simp add: c(2) ps(2) ar wq_ex_def)
  have r: "reshape c ([2, - 1] @ [64])
             = Inl (invalid_argument ''[reshape] Cannot reshape array of size'')"
    by (simp add: reshape_def shc array_size_def Let_def)
  have fb: "affine_dequantize_fallback exact_lib [2, - 1] [2, - 1] 64 5 6 [wq_ex, sb_ex, sb_ex]
              = Inl (invalid_argument ''[reshape] Cannot reshape array of size'')"
    unfolding affine_dequantize_fallback_def
    by (simp only: Let_def nth_Cons_0 ps(1) c(1) r sum.case)
  have el: "cdiv 32 5 = 6"
    by (simp add: cdiv_def)
  show ?thesis
    unfolding affine_dequantize_def
    by (simp add: el Let_def wq_ex_def sb_ex_def ndim_def set_back_def shape_at_def wrap32_def)
       (simp add: fb [unfolded wq_ex_def sb_ex_def])
qed

subsection \<open>Rotary position encoding: forward then inverse\<close>

lemma stride_one: "stride (Suc 0) xs = xs"
  by (induction xs) simp_all

lemma slice_axis_full: "length xs = n \<Longrightarrow> slice_axis 0 n (Suc 0) xs = xs"
  by (simp add: slice_axis_def stride_one)

lemma length_rows: "length (rows n d xs) = n"
  by (simp add: rows_def)

lemma rows_Suc: "rows (Suc n) d xs = take d xs # rows n d (drop d xs)"
  by (simp add: rows_def upt_conv_Cons map_Suc_upt [symmetric] add.commute del: upt_Suc)

lemma concat_rows: "length xs = n * d \<Longrightarrow> concat (rows n d xs) = xs"
proof (induction n arbitrary: xs)
  case 0
  then show ?case by (simp add: rows_def)
next
  case (Suc n)
  have "length (drop d xs) = n * d"
    using Suc.prems by simp
  then show ?case
    using Suc.IH [of "drop d xs"] by (simp add: rows_Suc)
qed

lemma rows_concat:
  "length yss = n \<Longrightarrow> \<forall>ys\<in>set yss. length ys = d \<Longrightarrow> rows n d (concat yss) = yss"
proof (induction yss arbitrary: n)
  case Nil
  then show ?case by (simp add: rows_def)
next
  case (Cons ys yss)
  then obtain k where n: "n = Suc k" and k: "length yss = k" by (cases n) auto
  from Cons.prems have d: "length ys = d" by simp
  have "rows k d (concat yss) = yss"
    using k Cons.prems by (intro Cons.IH) simp_all
  then show ?case
    by (simp add: n rows_Suc d)
qed

lemma rows_elem_length:
  "length xs = n * d \<Longrightarrow> ys \<in> set (rows n d xs) \<Longrightarrow> length ys = d"
proof -
  assume len: "length xs = n * d" and "ys \<in> set (rows n d xs)"
  then obtain i where i: "i < n" and ys: "ys = take d (drop (i * d) xs)"
    by (auto simp: rows_def)
  from i have "Suc i * d \<le> n * d" by (intro mult_le_mono1) simp
  then have "i * d + d \<le> length xs" using len by simp
  then show ?thesis by (simp add: ys)
qed

lemma map_zip_fst_full:
  "length xs \<le> length ys \<Longrightarrow> map (\<lambda>(x, y). f x) (zip xs ys) = map f xs"
  by (induction xs arbitrary: ys) (auto simp: Suc_le_length_iff)

lemma lift_of_map:
  assumes "\<forall>m\<in>set x. length m \<le> length C \<and> length m \<le> length S"
  shows "map (map f) x = lift (\<lambda>r c s. f r) C S x"
proof -
  have "map (\<lambda>(r, c, s). f r) (zip m (zip C S)) = map f m" if "m \<in> set x" for m
  proof -
    have "length m \<le> length (zip C S)" using assms that by simp
    then have "map (\<lambda>(r, z). f r) (zip m (zip C S)) = map f m"
      by (rule map_zip_fst_full)
    then show ?thesis by (simp add: case_prod_unfold)
  qed
  then show ?thesis
    by (simp add: lift_def)
qed

lemma zip_map_zip_tables:
  "zip (map H (zip m (zip C S))) C = map (\<lambda>p. (H p, fst (snd p))) (zip m (zip C S))"
  "zip (map H (zip m (zip C S))) S = map (\<lambda>p. (H p, snd (snd p))) (zip m (zip C S))"
proof -
  show "zip (map H (zip m (zip C S))) C = map (\<lambda>p. (H p, fst (snd p))) (zip m (zip C S))"
  proof (induction m arbitrary: C S)
    case Nil
    then show ?case by simp
  next
    case (Cons r m)
    then show ?case by (cases C; cases S) simp_all
  qed
  show "zip (map H (zip m (zip C S))) S = map (\<lambda>p. (H p, snd (snd p))) (zip m (zip C S))"
  proof (induction m arbitrary: C S)
    case Nil
    then show ?case by simp
  next
    case (Cons r m)
    then show ?case by (cases C; cases S) simp_all
  qed
qed

lemma multiply32_lift:
  "multiply32 (lift F C S x) C = lift (\<lambda>r c s. map2 (*) (F r c s) c) C S x"
  "multiply32 (lift F C S x) S = lift (\<lambda>r c s. map2 (*) (F r c s) s) C S x"
proof -
  have bc: "map2 g (map h x) (map (\<lambda>_. c) (map h x)) = map (\<lambda>m. g (h m) c) x"
    for g :: "'b \<Rightarrow> 'c \<Rightarrow> 'd" and h :: "real list list \<Rightarrow> 'b" and c
    by (simp add: zip_map_map zip_same_conv_map comp_def)
  show "multiply32 (lift F C S x) C = lift (\<lambda>r c s. map2 (*) (F r c s) c) C S x"
    unfolding multiply32_def elementwise3_def lift_def bc
    by (simp add: zip_map_zip_tables case_prod_unfold)
  show "multiply32 (lift F C S x) S = lift (\<lambda>r c s. map2 (*) (F r c s) s) C S x"
    unfolding multiply32_def elementwise3_def lift_def bc
    by (simp add: zip_map_zip_tables case_prod_unfold)
qed

lemma elementwise3_lift:
  "elementwise3 f (lift F C S x) (lift G C S x)
     = lift (\<lambda>r c s. map2 f (F r c s) (G r c s)) C S x"
  by (simp add: elementwise3_def lift_def zip_map_map zip_same_conv_map case_prod_unfold comp_def)

lemma interleave_simps [simp]:
  "interleave [] b = []" "interleave a [] = []"
  "interleave (u # a) (v # b) = u # v # interleave a b"
  by (simp_all add: interleave_def)

lemma expand_concat_lift:
  "reshape43 (concatenate_axis3 [expand_dims3 (lift F C S x), expand_dims3 (lift G C S x)])
     = lift (\<lambda>r c s. interleave (F r c s) (G r c s)) C S x"
  by (simp add: reshape43_def concatenate_axis3_def expand_dims3_def lift_def interleave_def
        zip_map_map zip_same_conv_map case_prod_unfold comp_def)

lemma concat_map_concat: "concat (map concat xss) = concat (concat xss)"
  by (induction xss) simp_all

lemma reshape_from4_eq: "reshape_from4 a sh t = reshape_from3 (reshape43 a) sh t"
proof -
  have "concat (concat (map (map concat) a)) = concat (map concat (concat a))"
    by (simp add: map_concat)
  then show ?thesis
    by (simp add: reshape_from4_def reshape_from3_def reshape43_def concat_map_concat)
qed

lemma concatenate_axis2_lift:
  "concatenate_axis2 [lift F C S x, lift G C S x] = lift (\<lambda>r c s. F r c s @ G r c s) C S x"
  "concatenate_axis2 [lift F C S x, lift G C S x, lift H C S x]
     = lift (\<lambda>r c s. F r c s @ G r c s @ H r c s) C S x"
  by (simp_all add: concatenate_axis2_def lift_def zip_map_map zip_same_conv_map
        case_prod_unfold comp_def)

lemma slice3_last:
  assumes "length x = n0" and "\<forall>m\<in>set x. length m = n1"
  shows "slice3 x (0, 0, a) (n0, n1, e) (Suc 0, Suc 0, k) = map (map (slice_axis a e k)) x"
  using assms by (simp add: slice3_def slice_axis_full cong: map_cong)

lemma lift_cong:
  assumes "\<And>m r c s. m \<in> set x \<Longrightarrow> r \<in> set m \<Longrightarrow> (c, s) \<in> set (zip C S) \<Longrightarrow> F r c s = G r c s"
  shows "lift F C S x = lift G C S x"
  unfolding lift_def
proof (intro map_cong refl)
  fix m p
  assume m: "m \<in> set x" and p: "p \<in> set (zip m (zip C S))"
  obtain r c s where prcs: "p = (r, c, s)" by (cases p) auto
  from p prcs have "r \<in> set m" "(c, s) \<in> set (zip C S)"
    by (auto dest: set_zip_leftD set_zip_rightD)
  with m show "(case p of (r, c, s) \<Rightarrow> F r c s) = (case p of (r, c, s) \<Rightarrow> G r c s)"
    by (simp add: prcs assms)
qed

lemma zip_map_zip_snd: "zip (map H (zip m Z)) Z = map (\<lambda>p. (H p, snd p)) (zip m Z)"
proof (induction m arbitrary: Z)
  case Nil
  then show ?case by simp
next
  case (Cons r m)
  then show ?case by (cases Z) simp_all
qed

lemma lift_comp: "lift G C S (lift F C S x) = lift (\<lambda>r c s. G (F r c s) c s) C S x"
  by (simp add: lift_def zip_map_zip_snd case_prod_unfold comp_def)

lemma apply_rope_lift:
  "apply_rope forward (lift A C S x) (lift B C S x) C S =
     [lift (\<lambda>r c s. rot_fst forward (A r c s) (B r c s) c s) C S x,
      lift (\<lambda>r c s. rot_snd forward (A r c s) (B r c s) c s) C S x]"
  by (simp add: apply_rope_def multiply32_lift elementwise3_lift rot_fst_def rot_snd_def)

lemma rope_fallback_rows:
  fixes x :: array and dims offset :: int and base scale :: real
  defines "n1 \<equiv> nat (shape x ! (length (shape x) - 2))"
    and "n2 \<equiv> nat (shape x ! (length (shape x) - 1))"
  defines "n0 \<equiv> array_size x div (n1 * n2)"
    and "x3 \<equiv> reshape3 x n1 n2"
    and "C \<equiv> map (map cos) (theta_table dims base scale offset n1)"
    and "S \<equiv> map (map sin) (theta_table dims base scale offset n1)"
  assumes len: "length C = n1"
    and reg: "\<forall>m\<in>set x3. length m = n1"
    and fl: "floating (dtype x)"
    and rs: "reshape x [- 1, int n1, int n2] = Inr x'"
    and nw: "wrap32 (int n1 + offset) = int n1 + offset"
  shows "rope_fallback dims traditional base scale offset forward [x] =
           Inr [reshape_from3 (lift (rope_row dims n2 traditional forward) C S x3)
                  (shape x) (dtype x)]"
proof -
  have ty: "inexact (dtype x)" "dtype x \<noteq> bool'" "at_least_float (dtype x) = dtype x"
    using fl by (auto simp: floating_def inexact_def at_least_float_def)
  have cast: "static_cast (dtype x) v = v" for v
    using ty(1) by (simp add: static_cast_def)
  have ar: "arange a b (dtype x) = Inr (map real_of_int (arange_int a b 1))" for a b
    using ty(2) by (simp add: arange_def cast)
  have lenS: "length S = n1"
    using len by (simp add: C_def S_def)
  have l0: "length x3 = n0"
    by (simp add: x3_def reshape3_def length_rows n0_def)
  have tab: "\<forall>m\<in>set x3. length m \<le> length C \<and> length m \<le> length S"
    using reg len lenS by simp
  have sl: "slice3 x3 (0, 0, a) (n0, n1, e) (1, 1, k)
              = lift (\<lambda>r c s. slice_axis a e k r) C S x3" for a e k
    using l0 reg tab by (simp add: slice3_last lift_of_map)
  have unf: "rope_fallback dims traditional base scale offset forward [x] =
    (if traditional then
       (if dims < int n2 then
          Inr [reshape_from3
             (concatenate_axis2
                [reshape43 (concatenate_axis3 (map expand_dims3
                   (apply_rope forward
                      (slice3 x3 (0, 0, 0) (n0, n1, nat dims) (1, 1, 2))
                      (slice3 x3 (0, 0, 1) (n0, n1, nat dims) (1, 1, 2)) C S))),
                 slice3 x3 (0, 0, nat dims) (n0, n1, n2) (1, 1, 1)])
             (shape x) (dtype x)]
        else
          Inr [reshape_from4
             (concatenate_axis3 (map expand_dims3
                (apply_rope forward
                   (slice3 x3 (0, 0, 0) (n0, n1, nat dims) (1, 1, 2))
                   (slice3 x3 (0, 0, 1) (n0, n1, nat dims) (1, 1, 2)) C S)))
             (shape x) (dtype x)])
     else
       Inr [reshape_from3
          (concatenate_axis2
             (if dims < int n2 then
                apply_rope forward
                  (slice3 x3 (0, 0, 0) (n0, n1, nat (cdiv dims 2)) (1, 1, 1))
                  (slice3 x3 (0, 0, nat (cdiv dims 2)) (n0, n1, nat dims) (1, 1, 1)) C S
                @ [slice3 x3 (0, 0, nat dims) (n0, n1, n2) (1, 1, 1)]
              else
                apply_rope forward
                  (slice3 x3 (0, 0, 0) (n0, n1, nat (cdiv dims 2)) (1, 1, 1))
                  (slice3 x3 (0, 0, nat (cdiv dims 2)) (n0, n1, nat dims) (1, 1, 1)) C S))
          (shape x) (dtype x)])"
    using rs unfolding n0_def n1_def n2_def x3_def C_def S_def
    by (simp add: rope_fallback_def Let_def theta_table_def reshape_infer3_def ar cast ty(3)
          nw [unfolded n1_def] comp_def del: int_nat_eq)
  show ?thesis
    unfolding unf sl apply_rope_lift
    by (simp add: expand_concat_lift concatenate_axis2_lift reshape_from4_eq
          rope_row_def [abs_def] Let_def)
qed

lemma stride2_interleave:
  "length a = length b \<Longrightarrow> stride 2 (interleave a b) = a"
  by (induction a b rule: list_induct2) simp_all

lemma stride2_tl_interleave:
  "length a = length b \<Longrightarrow> stride 2 (drop 1 (interleave a b)) = b"
proof (induction a b rule: list_induct2)
  case Nil
  then show ?case by simp
next
  case (Cons u a v b)
  then show ?case
    by (cases a; cases b) simp_all
qed

lemma length_interleave:
  "length a = length b \<Longrightarrow> length (interleave a b) = 2 * length a"
  by (induction a b rule: list_induct2) simp_all

lemma interleave_stride:
  "even (length xs) \<Longrightarrow> interleave (stride 2 xs) (stride 2 (drop 1 xs)) = xs"
proof (induction xs rule: induct_list012)
  case 1
  then show ?case by simp
next
  case (2 x)
  then show ?case by simp
next
  case (3 x y zs)
  then show ?case by simp
qed

lemma length_stride2:
  "even (length xs) \<Longrightarrow> length (stride 2 xs) = length xs div 2"
  "even (length xs) \<Longrightarrow> length (stride 2 (drop 1 xs)) = length xs div 2"
proof -
  show "even (length xs) \<Longrightarrow> length (stride 2 xs) = length xs div 2"
  proof (induction xs rule: induct_list012)
    case (3 x y zs)
    then show ?case by simp
  qed simp_all
  show "even (length xs) \<Longrightarrow> length (stride 2 (drop 1 xs)) = length xs div 2"
  proof (induction xs rule: induct_list012)
    case (3 x y zs)
    then show ?case by simp
  qed simp_all
qed

lemma rot_scalar:
  fixes u v t :: real
  shows "(u * sin t + v * cos t) * sin t + (u * cos t - v * sin t) * cos t = u"
    and "(u * sin t + v * cos t) * cos t - (u * cos t - v * sin t) * sin t = v"
proof -
  have "w * (cos t * cos t + sin t * sin t) = w" for w :: real
    by (simp only: sin_cos_squared_add3 mult_1_right)
  then have one: "w * (cos t * cos t) + w * (sin t * sin t) = w" for w :: real
    by (simp only: distrib_left)
  from one [of u] show "(u * sin t + v * cos t) * sin t + (u * cos t - v * sin t) * cos t = u"
    by (simp add: algebra_simps)
  from one [of v] show "(u * sin t + v * cos t) * cos t - (u * cos t - v * sin t) * sin t = v"
    by (simp add: algebra_simps)
qed

lemma length_rot:
  "length a = n \<Longrightarrow> length b = n \<Longrightarrow> length c = n \<Longrightarrow> length s = n \<Longrightarrow>
     length (rot_fst forward a b c s) = n \<and> length (rot_snd forward a b c s) = n"
  by (simp add: rot_fst_def rot_snd_def)

lemma rot_inverse:
  assumes "length a = length th" and "length b = length th"
  shows "rot_fst False (rot_fst True a b (map cos th) (map sin th))
                       (rot_snd True a b (map cos th) (map sin th)) (map cos th) (map sin th) = a"
    and "rot_snd False (rot_fst True a b (map cos th) (map sin th))
                       (rot_snd True a b (map cos th) (map sin th)) (map cos th) (map sin th) = b"
  using assms
proof (induction th arbitrary: a b)
  case Nil
  {
    case 1
    then show ?case by (simp add: rot_fst_def)
  next
    case 2
    then show ?case by (simp add: rot_snd_def)
  }
next
  case (Cons t th)
  {
    case 1
    then obtain u a' v b' where ab: "a = u # a'" "b = v # b'"
      and l: "length a' = length th" "length b' = length th"
      by (cases a; cases b) auto
    from Cons.IH(1) [OF l] show ?case
      by (simp add: ab rot_fst_def rot_snd_def rot_scalar)
  next
    case 2
    then obtain u a' v b' where ab: "a = u # a'" "b = v # b'"
      and l: "length a' = length th" "length b' = length th"
      by (cases a; cases b) auto
    from Cons.IH(2) [OF l] show ?case
      by (simp add: ab rot_fst_def rot_snd_def rot_scalar)
  }
qed

lemma row_roundtrip:
  assumes lr: "length r = D" and d0: "0 \<le> dims" and ev: "even dims" and dD: "dims \<le> int D"
    and lth: "length th = nat (dims div 2)"
  shows "rope_row dims D traditional False
           (rope_row dims D traditional True r (map cos th) (map sin th))
           (map cos th) (map sin th) = r"
    and "length (rope_row dims D traditional True r (map cos th) (map sin th)) = D"
proof -
  define d where "d = nat dims"
  define h where "h = nat (dims div 2)"
  let ?c = "map cos th" and ?s = "map sin th"
  have dh: "d = 2 * h"
    using d0 ev by (auto simp: d_def h_def elim!: evenE)
  have dle: "d \<le> D"
    using dD d0 by (simp add: d_def)
  have cd: "nat (cdiv dims 2) = h"
    using d0 by (simp add: h_def cdiv_nonneg)
  have rest: "(if dims < int D then slice_axis d D 1 q else []) = drop d q"
    if "length q = D" for q :: "real list"
    using that d0 dD by (auto simp: slice_axis_def stride_one d_def)
  have ltd: "length (take d r) = d"
    using dle lr by simp
  have row_trad: "rope_row dims D True f q c s =
      interleave (rot_fst f (stride 2 (take d q)) (stride 2 (drop 1 (take d q))) c s)
                 (rot_snd f (stride 2 (take d q)) (stride 2 (drop 1 (take d q))) c s) @ drop d q"
    if "length q = D" for f q c s
    unfolding rope_row_def Let_def d_def [symmetric] rest [OF that]
    by (simp add: slice_axis_def)
  have row_half: "rope_row dims D False f q c s =
      rot_fst f (take h q) (drop h (take d q)) c s
      @ rot_snd f (take h q) (drop h (take d q)) c s @ drop d q"
    if "length q = D" for f q c s
    unfolding rope_row_def Let_def d_def [symmetric] rest [OF that] cd
    by (simp add: slice_axis_def stride_one)
  have both: "rope_row dims D traditional False
           (rope_row dims D traditional True r ?c ?s) ?c ?s = r
    \<and> length (rope_row dims D traditional True r ?c ?s) = D"
  proof (cases traditional)
    case True
    define a where "a = stride 2 (take d r)"
    define b where "b = stride 2 (drop 1 (take d r))"
    have evd: "even (length (take d r))"
      using ltd dh by simp
    have la: "length a = length th" "length b = length th"
      using length_stride2 [OF evd] ltd dh lth by (simp_all add: a_def b_def h_def)
    define o1 where "o1 = rot_fst True a b ?c ?s"
    define o2 where "o2 = rot_snd True a b ?c ?s"
    have lo: "length o1 = h" "length o2 = h"
      using la lth by (simp_all add: o1_def o2_def rot_fst_def rot_snd_def h_def)
    define r' where "r' = interleave o1 o2 @ drop d r"
    have fwd: "rope_row dims D traditional True r ?c ?s = r'"
      using True unfolding r'_def o1_def o2_def a_def b_def
      by (simp add: row_trad [OF lr])
    have li: "length (interleave o1 o2) = d"
      using lo by (simp add: length_interleave dh)
    then have lr': "length r' = D"
      using lr dle by (simp add: r'_def)
    have tk: "take d r' = interleave o1 o2"
      using li by (simp add: r'_def)
    have dr: "drop d r' = drop d r"
      using li by (simp add: r'_def)
    have a': "stride 2 (take d r') = o1"
      unfolding tk using lo by (intro stride2_interleave) simp
    have b': "stride 2 (drop 1 (take d r')) = o2"
      unfolding tk using lo by (intro stride2_tl_interleave) simp
    have ab: "interleave a b = take d r"
      unfolding a_def b_def using evd by (rule interleave_stride)
    have "rope_row dims D traditional False r' ?c ?s
            = interleave (rot_fst False o1 o2 ?c ?s) (rot_snd False o1 o2 ?c ?s) @ drop d r"
      using True by (simp add: row_trad [OF lr'] a' b' [unfolded One_nat_def] dr)
    also have "\<dots> = interleave a b @ drop d r"
      unfolding o1_def o2_def by (simp only: rot_inverse [OF la])
    also have "\<dots> = r"
      by (simp add: ab)
    finally have "rope_row dims D traditional False
           (rope_row dims D traditional True r ?c ?s) ?c ?s = r"
      by (simp only: fwd)
    moreover have "length (rope_row dims D traditional True r ?c ?s) = D"
      by (simp only: fwd lr')
    ultimately show ?thesis ..
  next
    case False
    define a where "a = take h r"
    define b where "b = drop h (take d r)"
    have la: "length a = length th" "length b = length th"
      using ltd dh lth lr dle by (simp_all add: a_def b_def h_def)
    define o1 where "o1 = rot_fst True a b ?c ?s"
    define o2 where "o2 = rot_snd True a b ?c ?s"
    have lo: "length o1 = h" "length o2 = h"
      using la lth by (simp_all add: o1_def o2_def rot_fst_def rot_snd_def h_def)
    define r' where "r' = o1 @ o2 @ drop d r"
    have fwd: "rope_row dims D traditional True r ?c ?s = r'"
      using False unfolding r'_def o1_def o2_def a_def b_def
      by (simp add: row_half [OF lr])
    have lr': "length r' = D"
      using lr dle lo dh by (simp add: r'_def)
    have a': "take h r' = o1"
      using lo by (simp add: r'_def)
    have b': "drop h (take d r') = o2"
      using lo dh by (simp add: r'_def)
    have dr: "drop d r' = drop d r"
      using lo dh by (simp add: r'_def)
    have ab: "a @ b = take d r"
    proof -
      have "take h (take d r) = take h r"
        using dh by (simp add: min_def)
      then show ?thesis
        unfolding a_def b_def by (metis append_take_drop_id)
    qed
    have "rope_row dims D traditional False r' ?c ?s
            = rot_fst False o1 o2 ?c ?s @ rot_snd False o1 o2 ?c ?s @ drop d r"
      using False by (simp add: row_half [OF lr'] a' b' dr)
    also have "\<dots> = a @ b @ drop d r"
      unfolding o1_def o2_def by (simp only: rot_inverse [OF la])
    also have "\<dots> = r"
      using ab by (metis append.assoc append_take_drop_id)
    finally have "rope_row dims D traditional False
           (rope_row dims D traditional True r ?c ?s) ?c ?s = r"
      by (simp only: fwd)
    moreover have "length (rope_row dims D traditional True r ?c ?s) = D"
      by (simp only: fwd lr')
    ultimately show ?thesis ..
  qed  from both show "rope_row dims D traditional False
           (rope_row dims D traditional True r ?c ?s) ?c ?s = r"
    and "length (rope_row dims D traditional True r ?c ?s) = D"
    by simp_all
qed

lemma length_arange_int_1: "length (arange_int start stop 1) = nat (stop - start)"
proof (cases "start < stop")
  case True
  have "arange_int (stop - int (nat (stop - start)) * 1) stop 1
          = map (\<lambda>k. stop - int (nat (stop - start)) * 1 + int k * 1) [0..<nat (stop - start)]"
    by (rule arange_int_from) simp
  moreover have "stop - int (nat (stop - start)) * 1 = start"
    using True by simp
  ultimately have "arange_int start stop 1
          = map (\<lambda>k. start + int k * 1) [0..<nat (stop - start)]"
    by simp
  then show ?thesis by simp
next
  case False
  then show ?thesis by (simp add: arange_int.simps [of start])
qed

lemma theta_table_shape:
  "length (theta_table dims base scale offset n1) = n1"
  "th \<in> set (theta_table dims base scale offset n1) \<Longrightarrow> length th = nat (cdiv dims 2)"
  by (auto simp: theta_table_def length_arange_int_1)

lemma zip_cos_sin:
  "zip (map (map cos) T) (map (map sin) T) = map (\<lambda>th. (map cos th, map sin th)) T"
  by (simp add: zip_map_map zip_same_conv_map)

lemma array_size_split:
  assumes nn: "\<forall>d\<in>set (shape x). 0 \<le> d" and nd: "2 \<le> length (shape x)"
  defines "n1 \<equiv> nat (shape x ! (length (shape x) - 2))"
    and "n2 \<equiv> nat (shape x ! (length (shape x) - 1))"
  shows "array_size x = (array_size x div (n1 * n2)) * (n1 * n2)"
proof -
  let ?sh = "shape x"
  let ?n = "length ?sh"
  have "?sh = take (?n - 2) ?sh @ drop (?n - 2) ?sh" by simp
  moreover have "drop (?n - 2) ?sh = [?sh ! (?n - 2), ?sh ! (?n - 1)]"
  proof -
    have "drop (?n - 2) ?sh = ?sh ! (?n - 2) # drop (Suc (?n - 2)) ?sh"
      using nd by (intro Cons_nth_drop_Suc [symmetric]) simp
    moreover have "Suc (?n - 2) = ?n - 1" using nd by simp
    moreover have "drop (?n - 1) ?sh = ?sh ! (?n - 1) # drop (Suc (?n - 1)) ?sh"
      using nd by (intro Cons_nth_drop_Suc [symmetric]) simp
    ultimately show ?thesis using nd by simp
  qed
  ultimately have sh: "?sh = take (?n - 2) ?sh @ [?sh ! (?n - 2), ?sh ! (?n - 1)]"
    by simp
  have p: "prod_list ?sh = prod_list (take (?n - 2) ?sh) * (?sh ! (?n - 2) * ?sh ! (?n - 1))"
    by (subst sh) simp
  have a: "0 \<le> ?sh ! (?n - 2)" "0 \<le> ?sh ! (?n - 1)"
    using nn nd by simp_all
  have l: "0 \<le> prod_list (take (?n - 2) ?sh)"
    using nn by (intro prod_list_nonneg) (auto dest: in_set_takeD)
  have "array_size x = nat (prod_list (take (?n - 2) ?sh)) * (n1 * n2)"
    unfolding array_size_def p n1_def n2_def using a l
    by (simp add: nat_mult_distrib)
  then have "n1 * n2 dvd array_size x" by simp
  then show ?thesis by simp
qed

lemma reshape3_regular:
  assumes sz: "length (data x) = n0 * (n1 * n2)" and n0: "n0 = array_size x div (n1 * n2)"
  shows "length (reshape3 x n1 n2) = n0"
    and "\<forall>m\<in>set (reshape3 x n1 n2). length m = n1"
    and "\<forall>m\<in>set (reshape3 x n1 n2). \<forall>r\<in>set m. length r = n2"
    and "concat (concat (reshape3 x n1 n2)) = data x"
proof -
  let ?chunks = "rows n0 (n1 * n2) (data x)"
  have r3: "reshape3 x n1 n2 = map (rows n1 n2) ?chunks"
    by (simp add: reshape3_def n0)
  have ch: "length c = n1 * n2" if "c \<in> set ?chunks" for c
    using sz that by (rule rows_elem_length)
  show "length (reshape3 x n1 n2) = n0"
    by (simp add: r3 length_rows)
  show "\<forall>m\<in>set (reshape3 x n1 n2). length m = n1"
    by (auto simp: r3 length_rows)
  show "\<forall>m\<in>set (reshape3 x n1 n2). \<forall>r\<in>set m. length r = n2"
    using ch by (auto simp: r3 intro: rows_elem_length)
  have "map (\<lambda>c. concat (rows n1 n2 c)) ?chunks = map (\<lambda>c. c) ?chunks"
    by (rule map_cong [OF refl]) (simp add: concat_rows ch)
  moreover have "concat (concat (map (rows n1 n2) ?chunks))
                   = concat (map (\<lambda>c. concat (rows n1 n2 c)) ?chunks)"
    by (simp add: concat_map_concat [symmetric] comp_def)
  ultimately have "concat (concat (map (rows n1 n2) ?chunks)) = concat ?chunks"
    by simp
  then show "concat (concat (reshape3 x n1 n2)) = data x"
    using sz by (simp add: r3 concat_rows)
qed

lemma length_concat_regular:
  "\<forall>r\<in>set m. length r = d \<Longrightarrow> length (concat m) = length m * d"
  by (induction m) simp_all

lemma reshape3_of_flat:
  assumes l0: "length L = n0" and l1: "\<forall>m\<in>set L. length m = n1"
    and l2: "\<forall>m\<in>set L. \<forall>r\<in>set m. length r = n2"
    and dat: "data y = concat (concat L)" and n0: "array_size y div (n1 * n2) = n0"
  shows "reshape3 y n1 n2 = L"
proof -
  have cm: "length (concat m) = n1 * n2" if "m \<in> set L" for m
  proof -
    from that l2 have "\<forall>r\<in>set m. length r = n2" by blast
    then have "length (concat m) = length m * n2" by (rule length_concat_regular)
    with that l1 show ?thesis by simp
  qed
  have "rows n0 (n1 * n2) (concat (map concat L)) = map concat L"
    using l0 cm by (intro rows_concat) auto
  then have "rows n0 (n1 * n2) (data y) = map concat L"
    by (simp add: dat concat_map_concat)
  moreover have "map (\<lambda>m. rows n1 n2 (concat m)) L = map (\<lambda>m. m) L"
    using l1 l2 by (intro map_cong [OF refl] rows_concat) auto
  ultimately show ?thesis
    by (simp add: reshape3_def n0 comp_def)
qed

lemma rope_fallback_rows_explicit:
  assumes "n1 = nat (shape x ! (length (shape x) - 2))"
    and "n2 = nat (shape x ! (length (shape x) - 1))"
    and "C = map (map cos) (theta_table dims base scale offset n1)"
    and "S = map (map sin) (theta_table dims base scale offset n1)"
    and "\<forall>m\<in>set (reshape3 x n1 n2). length m = n1"
    and "floating (dtype x)"
    and "reshape x [- 1, int n1, int n2] = Inr x'"
    and "wrap32 (int n1 + offset) = int n1 + offset"
  shows "rope_fallback dims traditional base scale offset forward [x] =
           Inr [reshape_from3 (lift (rope_row dims n2 traditional forward) C S (reshape3 x n1 n2))
                  (shape x) (dtype x)]"
  unfolding assms(1-4)
  by (rule rope_fallback_rows [where x' = x'])
    (use assms(5-8) in \<open>simp_all add: theta_table_shape assms(1,2)\<close>)

lemma wrap32_id: "- (2 ^ 31) \<le> v \<Longrightarrow> v < 2 ^ 31 \<Longrightarrow> wrap32 v = v"
  by (simp add: wrap32_def)

lemma reshape_rows_ok:
  assumes nn: "\<forall>d\<in>set (shape x). 0 \<le> d" and nd: "2 \<le> length (shape x)"
    and n1: "n1 = nat (shape x ! (length (shape x) - 2))"
    and n2: "n2 = nat (shape x ! (length (shape x) - 1))"
    and pos: "0 < n1" "0 < n2"
  shows "\<exists>x'. reshape x [- 1, int n1, int n2] = Inr x'"
proof -
  have sz: "array_size x = (array_size x div (n1 * n2)) * (n1 * n2)"
    unfolding n1 n2 using nn nd by (rule array_size_split)
  have "int (array_size x)
          = prod_list [] * int (array_size x div (n1 * n2)) * prod_list [int n1, int n2]"
    by (subst sz) simp
  moreover have "shape x \<noteq> [] @ [- 1] @ [int n1, int n2]"
    using nn by auto
  moreover have "\<forall>d\<in>set [int n1, int n2]. 0 < d"
    using pos by simp
  ultimately have "reshape x ([] @ [- 1] @ [int n1, int n2])
      = Inr (x\<lparr>shape := [] @ [int (array_size x div (n1 * n2))] @ [int n1, int n2]\<rparr>)"
    by (intro reshape_infer) simp_all
  then show ?thesis by simp
qed

lemma rope_fallback_roundtrip:
  assumes fl: "floating (dtype x)"
    and wf: "length (data x) = array_size x"
    and nn: "\<forall>d\<in>set (shape x). 0 \<le> d"
    and nd: "3 \<le> ndim x"
    and pos: "0 < shape x ! (length (shape x) - 2)" "0 < shape x ! (length (shape x) - 1)"
    and d0: "0 \<le> dims" and ev: "even dims" and dl: "dims \<le> last (shape x)"
    and off: "wrap32 (shape x ! (length (shape x) - 2) + offset)
                = shape x ! (length (shape x) - 2) + offset"
  shows "\<exists>y. rope_fallback dims traditional base scale offset True [x] = Inr [y]
           \<and> shape y = shape x \<and> dtype y = dtype x
           \<and> rope_fallback dims traditional base scale offset False [y] = Inr [x]"
proof -
  define n1 where "n1 = nat (shape x ! (length (shape x) - 2))"
  define n2 where "n2 = nat (shape x ! (length (shape x) - 1))"
  define n0 where "n0 = array_size x div (n1 * n2)"
  define T where "T = theta_table dims base scale offset n1"
  define C where "C = map (map cos) T"
  define S where "S = map (map sin) T"
  define x3 where "x3 = reshape3 x n1 n2"
  define L where "L = lift (rope_row dims n2 traditional True) C S x3"
  define y where "y = reshape_from3 L (shape x) (dtype x)"
  have nd2: "2 \<le> length (shape x)" "shape x \<noteq> []"
    using nd by (auto simp: ndim_def)
  have np: "0 < n1" "0 < n2"
    using pos by (simp_all add: n1_def n2_def)
  have nw: "wrap32 (int n1 + offset) = int n1 + offset"
    using off pos(1) by (simp add: n1_def)
  obtain x' where rx: "reshape x [- 1, int n1, int n2] = Inr x'"
    using reshape_rows_ok [OF nn nd2(1) n1_def n2_def np] by blast
  have sz: "length (data x) = n0 * (n1 * n2)"
    unfolding wf n0_def n1_def n2_def using nn nd2(1) by (rule array_size_split)
  have reg: "length x3 = n0" "\<forall>m\<in>set x3. length m = n1"
    "\<forall>m\<in>set x3. \<forall>r\<in>set m. length r = n2" "concat (concat x3) = data x"
    unfolding x3_def using reshape3_regular [OF sz n0_def] by blast+
  have lC: "length C = n1" "length S = n1"
    by (simp_all add: C_def S_def T_def theta_table_shape)
  have dn2: "dims \<le> int n2"
  proof -
    have "last (shape x) = shape x ! (length (shape x) - 1)"
      using nd2(2) by (rule last_conv_nth)
    moreover have "0 \<le> shape x ! (length (shape x) - 1)"
      using nn nd2 by simp
    ultimately show ?thesis using dl by (simp add: n2_def)
  qed
  have hh: "nat (cdiv dims 2) = nat (dims div 2)"
    using d0 by (simp add: cdiv_nonneg)
  have tab: "\<exists>th. c = map cos th \<and> s = map sin th \<and> length th = nat (dims div 2)"
    if "(c, s) \<in> set (zip C S)" for c s
    using that unfolding C_def S_def zip_cos_sin T_def
    by (auto simp: theta_table_shape hh [symmetric])
  have fwd: "rope_fallback dims traditional base scale offset True [x] = Inr [y]"
    unfolding y_def L_def x3_def
    by (rule rope_fallback_rows_explicit [OF n1_def n2_def _ _ _ fl rx nw])
      (use reg(2) in \<open>simp_all add: C_def S_def T_def x3_def\<close>)
  have L0: "length L = n0"
    by (simp add: L_def lift_def reg(1))
  have L1: "\<forall>m\<in>set L. length m = n1"
    using reg(2) lC by (auto simp: L_def lift_def)
  have L2: "\<forall>m\<in>set L. \<forall>r\<in>set m. length r = n2"
  proof (intro ballI)
    fix m r assume "m \<in> set L" and r: "r \<in> set m"
    then obtain m0 where m0: "m0 \<in> set x3"
      and m: "m = map (\<lambda>(r, c, s). rope_row dims n2 traditional True r c s) (zip m0 (zip C S))"
      by (auto simp: L_def lift_def)
    from r m obtain r0 c s where p: "(r0, c, s) \<in> set (zip m0 (zip C S))"
      and rr: "r = rope_row dims n2 traditional True r0 c s"
      by auto
    from p have "r0 \<in> set m0" "(c, s) \<in> set (zip C S)"
      by (auto dest: set_zip_leftD set_zip_rightD)
    with m0 reg(3) tab obtain th where "length r0 = n2" "c = map cos th" "s = map sin th"
      "length th = nat (dims div 2)"
      by blast
    then show "length r = n2"
      unfolding rr using d0 ev dn2 by (simp add: row_roundtrip(2))
  qed
  have ysh: "shape y = shape x" "dtype y = dtype x" "data y = concat (concat L)"
    by (simp_all add: y_def reshape_from3_def)
  have y3: "reshape3 y n1 n2 = L"
    using L0 L1 L2 ysh(3)
    by (rule reshape3_of_flat) (simp add: array_size_def ysh(1) n0_def)
  have p1: "n1 = nat (shape y ! (length (shape y) - 2))"
    by (simp only: ysh n1_def)
  have p2: "n2 = nat (shape y ! (length (shape y) - 1))"
    by (simp only: ysh n2_def)
  have p3: "C = map (map cos) (theta_table dims base scale offset n1)"
    by (simp only: C_def T_def)
  have p4: "S = map (map sin) (theta_table dims base scale offset n1)"
    by (simp only: S_def T_def)
  have p5: "\<forall>m\<in>set (reshape3 y n1 n2). length m = n1"
    unfolding y3 by (rule L1)
  have p6: "floating (dtype y)"
    by (simp only: ysh fl)
  obtain y' where ry: "reshape y [- 1, int n1, int n2] = Inr y'"
    using reshape_rows_ok [OF _ _ p1 p2 np] nn nd2(1) by (auto simp only: ysh)
  have "rope_fallback dims traditional base scale offset False [y] =
          Inr [reshape_from3 (lift (rope_row dims n2 traditional False) C S (reshape3 y n1 n2))
                 (shape y) (dtype y)]"
    by (rule rope_fallback_rows_explicit [OF p1 p2 p3 p4 p5 p6 ry nw])
  also have "lift (rope_row dims n2 traditional False) C S (reshape3 y n1 n2)
          = lift (\<lambda>r c s. rope_row dims n2 traditional False
                     (rope_row dims n2 traditional True r c s) c s) C S x3"
    by (simp only: y3 L_def lift_comp)
  also have "\<dots> = lift (\<lambda>r c s. r) C S x3"
  proof (rule lift_cong)
    fix m r c s
    assume "m \<in> set x3" "r \<in> set m" "(c, s) \<in> set (zip C S)"
    with reg(3) tab obtain th where "length r = n2" "c = map cos th" "s = map sin th"
      "length th = nat (dims div 2)"
      by blast
    then show "rope_row dims n2 traditional False
                 (rope_row dims n2 traditional True r c s) c s = r"
      using d0 ev dn2 by (simp add: row_roundtrip(1))
  qed
  also have "\<dots> = map (map (\<lambda>r. r)) x3"
    using reg(2) lC by (intro lift_of_map [symmetric]) simp
  also have "\<dots> = x3" by simp
  finally have "rope_fallback dims traditional base scale offset False [y] =
          Inr [reshape_from3 x3 (shape x) (dtype x)]"
    by (simp only: ysh)
  also have "reshape_from3 x3 (shape x) (dtype x) = x"
    by (simp add: reshape_from3_def reg(4))
  finally show ?thesis
    using fwd ysh by blast
qed

lemma shape_at_nth:
  "2 \<le> length (shape a) \<Longrightarrow> shape_at a (- 2) = shape a ! (length (shape a) - 2)"
  "2 \<le> length (shape a) \<Longrightarrow> shape_at a (- 1) = shape a ! (length (shape a) - 1)"
  by (simp_all add: shape_at_def ndim_def nat_diff_distrib')

text \<open>
  Claim C2, as the code has it. Let \<open>x\<close> be an array of rank at least 3 with a floating
  element type and non-empty last two axes (its data matching its shape), \<open>dims\<close> an even
  number between 0 and the size of the last axis, and \<open>offset\<close> such that
  \<open>x.shape(-2) + offset\<close> is a 32-bit \<^verbatim>\<open>int\<close>. For both layouts and all values of
  \<open>base\<close> and \<open>scale\<close>, the fallback with \<open>forward = false\<close> applied to the result of
  the fallback with \<open>forward = true\<close> gives back \<open>x\<close> exactly, rotated and trailing
  features alike, over the real numbers. Off the GPU \<^verbatim>\<open>rope\<close> runs these fallbacks; on
  the GPU it returns the \<^verbatim>\<open>RoPE\<close> node that carries them.
\<close>

theorem rope_forward_inverse:
  assumes fl: "floating (dtype x)"
    and wf: "length (data x) = array_size x"
    and nn: "\<forall>d\<in>set (shape x). 0 \<le> d"
    and nd: "3 \<le> ndim x"
    and pos: "0 < shape_at x (- 2)" "0 < shape_at x (- 1)"
    and d0: "0 \<le> dims" and ev: "even dims" and dl: "dims \<le> shape_at x (- 1)"
    and off: "- (2 ^ 31) \<le> offset" "shape_at x (- 2) + offset < 2 ^ 31"
  shows "(\<exists>y. rope_fallback dims traditional base scale offset True [x] = Inr [y]
            \<and> rope_fallback dims traditional base scale offset False [y] = Inr [x])
       \<and> (device s \<noteq> gpu \<longrightarrow>
            (\<exists>y. rope x dims traditional base scale offset True s = Inr (fallback_result y)
               \<and> rope y dims traditional base scale offset False s = Inr (fallback_result x)))
       \<and> (device s = gpu \<longrightarrow>
            (\<forall>forward. rope x dims traditional base scale offset forward s =
               Inr (primitive_node (shape x) (dtype x)
                      (RoPE s (stored (rope_fallback dims traditional base scale offset forward))
                         dims traditional base scale offset forward) [x])))"
proof -
  have l2: "2 \<le> length (shape x)" "shape x \<noteq> []"
    using nd by (auto simp: ndim_def)
  have q1: "0 < shape x ! (length (shape x) - 2)" "0 < shape x ! (length (shape x) - 1)"
    using pos by (simp_all only: shape_at_nth [OF l2(1)])
  have q2: "dims \<le> last (shape x)"
    using dl by (simp only: shape_at_last [OF l2(2)])
  have e: "shape x ! (length (shape x) - 2) = shape_at x (- 2)"
    by (simp only: shape_at_nth [OF l2(1)])
  have q3: "wrap32 (shape x ! (length (shape x) - 2) + offset)
              = shape x ! (length (shape x) - 2) + offset"
    unfolding e using off pos(1) by (intro wrap32_id) simp_all
  from rope_fallback_roundtrip [OF fl wf nn nd q1 d0 ev q2 q3]
  obtain y where fwd: "rope_fallback dims traditional base scale offset True [x] = Inr [y]"
    and sh: "shape y = shape x"
    and inv: "rope_fallback dims traditional base scale offset False [y] = Inr [x]"
    by blast
  have ndy: "\<not> ndim y < 3" "\<not> ndim x < 3"
    using nd sh by (simp_all add: ndim_def)
  have a: "\<exists>y. rope_fallback dims traditional base scale offset True [x] = Inr [y]
            \<and> rope_fallback dims traditional base scale offset False [y] = Inr [x]"
    using fwd inv by blast
  have b: "\<exists>y. rope x dims traditional base scale offset True s = Inr (fallback_result y)
               \<and> rope y dims traditional base scale offset False s = Inr (fallback_result x)"
    if "device s \<noteq> gpu"
    using that ndy by (intro exI [of _ y]) (simp add: rope_def Let_def fwd inv)
  have c: "rope x dims traditional base scale offset forward s =
               Inr (primitive_node (shape x) (dtype x)
                      (RoPE s (stored (rope_fallback dims traditional base scale offset forward))
                         dims traditional base scale offset forward) [x])"
    if "device s = gpu" for forward
    using that ndy by (simp add: rope_def Let_def)
  from a b c show ?thesis by blast
qed

theorem rope_forward_inverse_witness:
  "\<exists>y. rope x_rope 2 True 10000 1 3 True \<lparr>index = 0, device = cpu\<rparr> = Inr (fallback_result y)
      \<and> rope y 2 True 10000 1 3 False \<lparr>index = 0, device = cpu\<rparr> = Inr (fallback_result x_rope)"
proof -
  have "floating (dtype x_rope)"
    and "length (data x_rope) = array_size x_rope"
    and "\<forall>d\<in>set (shape x_rope). 0 \<le> d"
    and "3 \<le> ndim x_rope"
    and "0 < shape_at x_rope (- 2)" and "0 < shape_at x_rope (- 1)"
    and "(2 :: int) \<le> shape_at x_rope (- 1)"
    and "shape_at x_rope (- 2) + 3 < 2 ^ 31"
    by (simp_all add: x_rope_def array_size_def ndim_def floating_def shape_at_def)
  from rope_forward_inverse [OF this(1-6) _ _ this(7) _ this(8),
      of True 10000 1 "\<lparr>index = 0, device = cpu\<rparr>"]
  show ?thesis by simp
qed

text \<open>
  Claim C2 as stated fails for an integer tensor and for an empty one. For the \<open>int32\<close>
  pair \<open>(0, 1)\<close> at position 1 with \<open>scale = 1/2\<close> the forward pass computes its angle
  in \<open>int32\<close>, where the scale is 0: it returns the pair unchanged, as \<open>float32\<close>. The
  inverse pass on that result has the angle \<open>1/2\<close> and returns
  \<open>(sin (1/2), cos (1/2))\<close>, which is not the pair the round trip started from. For an
  array with an empty axis of positions the first reshape of the fallback cannot infer its
  leading dimension, and the call raises.
\<close>

theorem rope_int32_not_inverse:
  "rope x_int 2 False 10000 (1 / 2) 1 True \<lparr>index = 0, device = cpu\<rparr>
     = Inr (fallback_result y_int)
   \<and> rope y_int 2 False 10000 (1 / 2) 1 False \<lparr>index = 0, device = cpu\<rparr>
       = Inr (fallback_result z_int)
   \<and> data z_int ! 0 \<noteq> data x_int ! 0
   \<and> dtype z_int \<noteq> dtype x_int
   \<and> rope x_empty 2 False 10000 (1 / 2) 1 True \<lparr>index = 0, device = cpu\<rparr>
       = Inl (invalid_argument ''[reshape] Cannot infer the shape of an empty array'')"
proof -
  have ar: "arange_int 1 2 1 = [1]" "arange_int 0 1 1 = [0]"
    by (simp_all add: arange_int.simps [of 0] arange_int.simps [of 1] arange_int.simps [of 2])
  have "0 < sin (1 / 2 :: real)"
    by (rule sin_gt_zero_02) simp_all
  then have ne: "data z_int ! 0 \<noteq> data x_int ! 0"
    by (simp add: z_int_def x_int_def)
  note ev = rope_def rope_fallback_def reshape_infer3_def reshape_def reshape3_def
    rows_def array_size_def ndim_def arange_def static_cast_def inexact_def floating_def
    at_least_float_def int_signed_def int_width_def trunc_def wrap32_def cdiv_def
    slice3_def slice_axis_def apply_rope_def elementwise3_def multiply32_def
    concatenate_axis2_def reshape_from3_def Let_def ar
  have f: "rope x_int 2 False 10000 (1 / 2) 1 True \<lparr>index = 0, device = cpu\<rparr>
     = Inr (fallback_result y_int)"
    by (simp add: ev x_int_def y_int_def)
  have b: "rope y_int 2 False 10000 (1 / 2) 1 False \<lparr>index = 0, device = cpu\<rparr>
       = Inr (fallback_result z_int)"
    by (simp add: ev y_int_def z_int_def)
  have e: "rope x_empty 2 False 10000 (1 / 2) 1 True \<lparr>index = 0, device = cpu\<rparr>
       = Inl (invalid_argument ''[reshape] Cannot infer the shape of an empty array'')"
    by (simp add: ev x_empty_def)
  have t: "dtype z_int \<noteq> dtype x_int"
    by (simp add: z_int_def x_int_def)
  from f b ne t e show ?thesis by simp
qed

end
